theory Spec2Isabelle
  imports Main "HOL-Library.Sublist"
begin

section \<open>Python strings\<close>

text \<open>
  A Python \<^verbatim>\<open>str\<close> is a sequence of Unicode code points, and every operation the
  scripts use (\<^verbatim>\<open>in\<close>, \<^verbatim>\<open>replace\<close>, \<^verbatim>\<open>split\<close>, \<^verbatim>\<open>strip\<close>, \<^verbatim>\<open>startswith\<close>,
  the \<^verbatim>\<open>re\<close> module) works on code points. A \<^typ>\<open>char\<close> of HOL is a byte, so the
  model takes a string as the list of its code points. \<open>u\<close> turns an ASCII literal
  into such a list; the emoji of the rule tables and the backslash are written as
  code points (\<open>0x5C\<close> is the backslash, \<open>0x22\<close> the double quote, \<open>10\<close> the
  newline).
\<close>

type_synonym str = "nat list"

definition u :: "string \<Rightarrow> str" where
  "u s = map of_char s"

text \<open>
  \<^verbatim>\<open>str.isspace\<close> of one character; \<^verbatim>\<open>str.strip()\<close> and the \<^verbatim>\<open>\s\<close> of \<^verbatim>\<open>re\<close>
  on a \<^verbatim>\<open>str\<close> pattern use the same set (CPython's \<^verbatim>\<open>Py_UNICODE_ISSPACE\<close>).
\<close>

definition isspace :: "nat \<Rightarrow> bool" where
  "isspace c \<longleftrightarrow>
     (9 \<le> c \<and> c \<le> 13) \<or> (28 \<le> c \<and> c \<le> 32) \<or> c = 0x85 \<or> c = 0xA0 \<or> c = 0x1680 \<or>
     (0x2000 \<le> c \<and> c \<le> 0x200A) \<or> c = 0x2028 \<or> c = 0x2029 \<or> c = 0x202F \<or>
     c = 0x205F \<or> c = 0x3000"

text \<open>\<^verbatim>\<open>x in s\<close>: \<open>x\<close> occurs in \<open>s\<close> as a contiguous substring.\<close>

fun str_in :: "str \<Rightarrow> str \<Rightarrow> bool" where
  "str_in x [] = (x = [])"
| "str_in x (c # cs) = (prefix x (c # cs) \<or> str_in x cs)"

text \<open>
  \<^verbatim>\<open>s.replace(old, new)\<close>: every occurrence of \<open>old\<close>, found from the left and not
  overlapping, is replaced. With an empty \<open>old\<close> Python puts \<open>new\<close> before every
  character and at the end.
\<close>

fun str_replace :: "str \<Rightarrow> str \<Rightarrow> str \<Rightarrow> str" where
  "str_replace old new [] = (if old = [] then new else [])"
| "str_replace old new (c # cs) =
     (if old = [] then new @ c # str_replace old new cs
      else if prefix old (c # cs) then new @ str_replace old new (drop (length old - 1) cs)
      else c # str_replace old new cs)"

text \<open>\<^verbatim>\<open>s.split(sep)\<close> for a separator of one character: never an empty list.\<close>

fun str_split :: "nat \<Rightarrow> str \<Rightarrow> str list" where
  "str_split sep [] = [[]]"
| "str_split sep (c # cs) =
     (if c = sep then [] # str_split sep cs
      else (case str_split sep cs of [] \<Rightarrow> [[c]] | l # ls \<Rightarrow> (c # l) # ls))"

text \<open>\<^verbatim>\<open>sep.join(lines)\<close>.\<close>

fun str_join :: "str \<Rightarrow> str list \<Rightarrow> str" where
  "str_join sep [] = []"
| "str_join sep [l] = l"
| "str_join sep (l # l' # ls) = l @ sep @ str_join sep (l' # ls)"

text \<open>\<^verbatim>\<open>s.strip()\<close>: whitespace is removed at both ends.\<close>

definition str_strip :: "str \<Rightarrow> str" where
  "str_strip s = rev (dropWhile isspace (rev (dropWhile isspace s)))"

definition startswith :: "str \<Rightarrow> str \<Rightarrow> bool" where
  "startswith s p = prefix p s"

text \<open>
  \<^verbatim>\<open>lines.insert(i, x)\<close> for \<open>i \<ge> 0\<close>: \<open>x\<close> goes before position \<open>i\<close>, or at the
  end when the list is shorter.
\<close>

definition list_insert :: "nat \<Rightarrow> 'a \<Rightarrow> 'a list \<Rightarrow> 'a list" where
  "list_insert i x xs = take i xs @ x # drop i xs"

section \<open>The part of \<^verbatim>\<open>re\<close> that \<^verbatim>\<open>optimize_logging.py\<close> uses\<close>

text \<open>
  The patterns of the script are sequences of literal characters, \<^verbatim>\<open>\s+\<close>,
  \<^verbatim>\<open>[^\n]+\<close> and \<^verbatim>\<open>.*\<close> (the dot does not match a newline: no flag is given).
  \<open>rmatch p s\<close> is the length of the match of \<open>p\<close> at the start of \<open>s\<close>, found as
  the backtracking matcher finds it: a greedy repetition takes the longest run first
  and gives characters back one at a time while the rest of the pattern fails.
\<close>

datatype atom = Lit nat | SpacePlus | NotNlPlus | DotStar

definition lits :: "str \<Rightarrow> atom list" where
  "lits s = map Lit s"

primrec try_down :: "(str \<Rightarrow> nat option) \<Rightarrow> str \<Rightarrow> nat \<Rightarrow> nat \<Rightarrow> nat option" where
  "try_down k s lo 0 = (if lo = 0 then k s else None)"
| "try_down k s lo (Suc n) =
     (if Suc n < lo then None
      else (case k (drop (Suc n) s) of
              Some m \<Rightarrow> Some (Suc n + m)
            | None \<Rightarrow> try_down k s lo n))"

primrec rmatch :: "atom list \<Rightarrow> str \<Rightarrow> nat option" where
  "rmatch [] = (\<lambda>s. Some 0)"
| "rmatch (a # as) = (\<lambda>s.
     case a of
       Lit c \<Rightarrow> (case s of [] \<Rightarrow> None
                 | d # ds \<Rightarrow> if d = c then map_option Suc (rmatch as ds) else None)
     | SpacePlus \<Rightarrow> try_down (rmatch as) s 1 (length (takeWhile isspace s))
     | NotNlPlus \<Rightarrow> try_down (rmatch as) s 1 (length (takeWhile (\<lambda>d. d \<noteq> 10) s))
     | DotStar \<Rightarrow> try_down (rmatch as) s 0 (length (takeWhile (\<lambda>d. d \<noteq> 10) s)))"

text \<open>
  \<^verbatim>\<open>re.findall(p, s)\<close> for a pattern whose one group encloses the whole pattern: the
  matched substrings, scanning from the left, each search starting where the last
  match ended (one character further after an empty match).
\<close>

fun findall :: "atom list \<Rightarrow> str \<Rightarrow> str list" where
  "findall p [] = (case rmatch p [] of None \<Rightarrow> [] | Some m \<Rightarrow> [[]])"
| "findall p (c # cs) =
     (case rmatch p (c # cs) of
        None \<Rightarrow> findall p cs
      | Some m \<Rightarrow> take m (c # cs) # findall p (drop (m - 1) cs))"

text \<open>
  A replacement template: literal characters and group references \<^verbatim>\<open>\1\<close>, \<^verbatim>\<open>\2\<close>,
  ... . A backslash before a character that is neither a digit, a letter nor \<^verbatim>\<open>g\<close>
  (the \<^verbatim>\<open>\(\<close> of the script's templates) stays in the output as it is, so it is two
  literal characters of the template.

  \<^verbatim>\<open>re.sub(pattern, repl, string)\<close> of CPython 3 compiles the template \<^emph>\<open>before\<close> it
  looks for a match: a template that contains a backslash is handed to the template
  parser, which raises \<^verbatim>\<open>re.error: invalid group reference\<close> for a group number
  above the number of groups of the pattern. So \<^verbatim>\<open>re.sub('a', r'\1', 'xyz')\<close> raises
  although \<^verbatim>\<open>a\<close> does not occur in \<^verbatim>\<open>xyz\<close>. None of the patterns the script gives to
  \<^verbatim>\<open>re.sub\<close> has a group, so \<open>template_lits\<close> accepts a template exactly when it has
  no group reference, and then the template is its literal text.
\<close>

datatype titem = TLit nat | TGroup nat

definition tlits :: "str \<Rightarrow> titem list" where
  "tlits s = map TLit s"

datatype error = OSError | UnicodeDecodeError | ReError

fun template_lits :: "titem list \<Rightarrow> str option" where
  "template_lits [] = Some []"
| "template_lits (TLit c # ts) = map_option ((#) c) (template_lits ts)"
| "template_lits (TGroup g # ts) = None"

fun sub_scan :: "atom list \<Rightarrow> str \<Rightarrow> str \<Rightarrow> str" where
  "sub_scan p new [] = (case rmatch p [] of None \<Rightarrow> [] | Some m \<Rightarrow> new)"
| "sub_scan p new (c # cs) =
     (case rmatch p (c # cs) of
        None \<Rightarrow> c # sub_scan p new cs
      | Some m \<Rightarrow> if m = 0 then new @ c # sub_scan p new cs
                  else new @ sub_scan p new (drop (m - 1) cs))"

definition re_sub :: "atom list \<Rightarrow> titem list \<Rightarrow> str \<Rightarrow> error + str" where
  "re_sub pattern repl s =
     (case template_lits repl of
        None \<Rightarrow> Inl ReError
      | Some new \<Rightarrow> Inr (sub_scan pattern new s))"

section \<open>Files and the console\<close>

text \<open>
  A file has the text that \<^verbatim>\<open>f.read()\<close> returns for it in text mode (\<open>None\<close> when
  its bytes are not UTF-8, so that reading raises \<^verbatim>\<open>UnicodeDecodeError\<close>) and may be
  unreadable or unwritable, in which case \<^verbatim>\<open>open\<close> raises \<^verbatim>\<open>OSError\<close> and the file
  stays as it is. A path without a file cannot be opened for reading; opening it for
  writing creates the file. The world is the files by path and the lines printed so
  far: \<open>Optimized p\<close> for \<^verbatim>\<open>Optimized: p\<close> and \<open>Summary n\<close> for \<^verbatim>\<open>Optimized n files\<close>.
\<close>

record file_rec =
  readable :: bool
  writable :: bool
  text_of :: "str option"

datatype out_line = Optimized str | Summary nat

record world =
  files :: "str \<Rightarrow> file_rec option"
  stdout :: "out_line list"

definition read_text :: "world \<Rightarrow> str \<Rightarrow> error + str" where
  "read_text w p =
     (case files w p of
        None \<Rightarrow> Inl OSError
      | Some f \<Rightarrow>
          if \<not> readable f then Inl OSError
          else (case text_of f of None \<Rightarrow> Inl UnicodeDecodeError | Some c \<Rightarrow> Inr c))"

definition write_text :: "world \<Rightarrow> str \<Rightarrow> str \<Rightarrow> error + world" where
  "write_text w p c =
     (case files w p of
        None \<Rightarrow> Inr (w\<lparr>files := (files w)(p \<mapsto> \<lparr>readable = True, writable = True, text_of = Some c\<rparr>)\<rparr>)
      | Some f \<Rightarrow>
          if \<not> writable f then Inl OSError
          else Inr (w\<lparr>files := (files w)(p \<mapsto> f\<lparr>text_of := Some c\<rparr>)\<rparr>))"

section \<open>\<^verbatim>\<open>optimize_logging_simple.py\<close>\<close>

text \<open>
  The two strings of the gate, the import step and the rule table. In the table the
  emoji are the code points \<open>0x1F504\<close> (arrows in a circle), \<open>0x26A0, 0xFE0F\<close>
  (warning sign with its variation selector), \<open>0x1F4BE\<close> (floppy disk), \<open>0x2705\<close>
  (check mark), \<open>0x274C\<close> (cross mark), \<open>0x1F4E5\<close> (inbox tray) and, in the regex
  table only, \<open>0x1F4F8\<close> (camera with flash).
\<close>

definition import_PerformanceLogger :: str where
  "import_PerformanceLogger = u ''import PerformanceLogger''"

definition print_marker :: str where
  "print_marker = u ''print(''"

text \<open>
  The test \<^verbatim>\<open>line.strip().startswith('import ')\<close> and the loop over
  \<^verbatim>\<open>enumerate(lines)\<close>, which leaves the index of the last such line, or \<open>-1\<close>.
\<close>

definition is_import_line :: "str \<Rightarrow> bool" where
  "is_import_line line = startswith (str_strip line) (u ''import '')"

fun import_scan :: "int \<Rightarrow> nat \<Rightarrow> str list \<Rightarrow> int" where
  "import_scan import_index i [] = import_index"
| "import_scan import_index i (line # lines) =
     import_scan (if is_import_line line then int i else import_index) (Suc i) lines"

definition add_import_simple :: "str \<Rightarrow> str" where
  "add_import_simple content =
     (if \<not> str_in import_PerformanceLogger content \<and> str_in print_marker content then
        (let lines = str_split 10 content;
             import_index = import_scan (- 1) 0 lines
         in if import_index \<ge> 0
            then str_join [10] (list_insert (nat (import_index + 1)) import_PerformanceLogger lines)
            else content)
      else content)"

definition replacements_simple :: "(str \<times> str) list" where
  \<open>replacements_simple = [
    (u ''print("'' @ [0x1F504] @ u '' JournalView: Loading drawing for journal page date: '' @ [0x5C] @ u ''(currentDate)")'',
     u ''logPerformance("Loading drawing for journal page date: '' @ [0x5C] @ u ''(currentDate)")''),
    (u ''print("'' @ [0x1F504] @ u '' JournalView: Loaded existing drawing for date: '' @ [0x5C] @ u ''(targetDate)")'',
     u ''logPerformance("Loaded existing drawing for date: '' @ [0x5C] @ u ''(targetDate)")''),
    (u ''print("'' @ [0x26A0, 0xFE0F] @ u '' JournalView: Date changed during drawing load, ignoring stale data")'',
     u ''logWarning("Date changed during drawing load, ignoring stale data")''),
    (u ''print("'' @ [0x1F504] @ u '' JournalView: No existing drawing found for date: '' @ [0x5C] @ u ''(targetDate)")'',
     u ''logPerformance("No existing drawing found for date: '' @ [0x5C] @ u ''(targetDate)")''),
    (u ''print("'' @ [0x26A0, 0xFE0F] @ u '' JournalView: Save blocked - operation in progress")'',
     u ''logWarning("Save blocked - operation in progress")''),
    (u ''print("'' @ [0x1F4BE] @ u '' JournalView: Starting explicit save to iCloud for '' @ [0x5C] @ u ''(currentDate)")'',
     u ''logPerformance("Starting explicit save to iCloud for '' @ [0x5C] @ u ''(currentDate)")''),
    (u ''print("'' @ [0x1F4BE] @ u '' JournalView: Saving drawing to iCloud")'',
     u ''logPerformance("Saving drawing to iCloud")''),
    (u ''print("'' @ [0x1F4BE] @ u '' JournalView: Saving photos to iCloud")'',
     u ''logPerformance("Saving photos to iCloud")''),
    (u ''print("'' @ [0x2705] @ u '' JournalView: Successfully saved to iCloud")'',
     u ''logInfo("Successfully saved to iCloud")''),
    (u ''print("'' @ [0x274C] @ u '' JournalView: Failed to save to iCloud: '' @ [0x5C] @ u ''(error.localizedDescription)")'',
     u ''logError("Failed to save to iCloud: '' @ [0x5C] @ u ''(error.localizedDescription)")''),
    (u ''print("'' @ [0x26A0, 0xFE0F] @ u '' JournalView: Load blocked - operation in progress")'',
     u ''logWarning("Load blocked - operation in progress")''),
    (u ''print("'' @ [0x1F4E5] @ u '' JournalView: Loading from iCloud for '' @ [0x5C] @ u ''(currentDate)")'',
     u ''logPerformance("Loading from iCloud for '' @ [0x5C] @ u ''(currentDate)")''),
    (u ''print("'' @ [0x1F4E5] @ u '' JournalView: Successfully loaded drawing from iCloud")'',
     u ''logInfo("Successfully loaded drawing from iCloud")''),
    (u ''print("'' @ [0x1F4E5] @ u '' JournalView: No drawing found in iCloud")'',
     u ''logInfo("No drawing found in iCloud")''),
    (u ''print("'' @ [0x2705] @ u '' JournalView: Successfully loaded from iCloud")'',
     u ''logInfo("Successfully loaded from iCloud")''),
    (u ''print("'' @ [0x274C] @ u '' JournalView: Failed to load from iCloud: '' @ [0x5C] @ u ''(error.localizedDescription)")'',
     u ''logError("Failed to load from iCloud: '' @ [0x5C] @ u ''(error.localizedDescription)")''),
    (u ''print("'' @ [0x26A0, 0xFE0F] @ u '' JournalView: Date switch blocked - save/load in progress")'',
     u ''logWarning("Date switch blocked - save/load in progress")''),
    (u ''print("'' @ [0x1F504] @ u '' JournalView: Switching to date '' @ [0x5C] @ u ''(newDate)")'',
     u ''logPerformance("Switching to date '' @ [0x5C] @ u ''(newDate)")'')
  ]\<close>

fun apply_replacements_simple :: "(str \<times> str) list \<Rightarrow> str \<Rightarrow> str" where
  "apply_replacements_simple [] content = content"
| "apply_replacements_simple ((old, new) # rs) content =
     apply_replacements_simple rs (str_replace old new content)"

definition transform_simple :: "str \<Rightarrow> str" where
  "transform_simple content =
     apply_replacements_simple replacements_simple (add_import_simple content)"

definition optimize_file_simple :: "world \<Rightarrow> str \<Rightarrow> (error + bool) \<times> world" where
  "optimize_file_simple w file_path =
     (case read_text w file_path of
        Inl e \<Rightarrow> (Inl e, w)
      | Inr original_content \<Rightarrow>
          (let content = transform_simple original_content
           in if content \<noteq> original_content then
                (case write_text w file_path content of
                   Inl e \<Rightarrow> (Inl e, w)
                 | Inr w' \<Rightarrow> (Inr True, w'\<lparr>stdout := stdout w' @ [Optimized file_path]\<rparr>))
              else (Inr False, w)))"

text \<open>
  The loop of \<^verbatim>\<open>main\<close>, the same text in both scripts: an exception of
  \<^verbatim>\<open>optimize_file\<close> is not caught, so it ends the loop and the run. The list of
  paths is what \<^verbatim>\<open>glob.glob\<close> returned.
\<close>

fun count_loop ::
  "(world \<Rightarrow> str \<Rightarrow> (error + bool) \<times> world) \<Rightarrow> world \<Rightarrow> str list \<Rightarrow> nat \<Rightarrow> (error + nat) \<times> world" where
  "count_loop opt w [] optimized_count = (Inr optimized_count, w)"
| "count_loop opt w (file_path # rest) optimized_count =
     (case opt w file_path of
        (Inl e, w') \<Rightarrow> (Inl e, w')
      | (Inr b, w') \<Rightarrow> count_loop opt w' rest (if b then optimized_count + 1 else optimized_count))"

definition main_with ::
  "(world \<Rightarrow> str \<Rightarrow> (error + bool) \<times> world) \<Rightarrow> world \<Rightarrow> str list \<Rightarrow> (error + unit) \<times> world" where
  "main_with opt w swift_files =
     (case count_loop opt w swift_files 0 of
        (Inl e, w') \<Rightarrow> (Inl e, w')
      | (Inr optimized_count, w') \<Rightarrow> (Inr (), w'\<lparr>stdout := stdout w' @ [Summary optimized_count]\<rparr>))"

definition main_simple :: "world \<Rightarrow> str list \<Rightarrow> (error + unit) \<times> world" where
  "main_simple = main_with optimize_file_simple"

section \<open>\<^verbatim>\<open>optimize_logging.py\<close>\<close>

text \<open>
  \<^verbatim>\<open>import_pattern = r'(import\s+[^\n]+\n)'\<close>; its group is the whole pattern, so
  \<^verbatim>\<open>re.findall\<close> returns the matches themselves.
\<close>

definition import_pattern :: "atom list" where
  "import_pattern = lits (u ''import'') @ [SpacePlus, NotNlPlus, Lit 10]"

definition add_import :: "str \<Rightarrow> str" where
  "add_import content =
     (if \<not> str_in import_PerformanceLogger content \<and> str_in print_marker content then
        (let imports = findall import_pattern content
         in if imports \<noteq> [] then
              (let last_import = last imports
               in str_replace last_import (last_import @ import_PerformanceLogger @ [10]) content)
            else content)
      else content)"

text \<open>
  The rule table. A pattern is the raw string read as a regular expression
  (\<^verbatim>\<open>\(\<close>, \<^verbatim>\<open>\)\<close> and \<^verbatim>\<open>\.\<close> are the literal characters), a template is the ordinary
  string literal read as a template (\<^verbatim>\<open>'\\1'\<close> in the source is the two characters
  \<^verbatim>\<open>\1\<close>, a reference to group 1).
\<close>

definition replacements :: "(atom list \<times> titem list) list" where
  \<open>replacements = [
    (lits (u ''print("'' @ [0x1F504] @ u '' JournalView: Loading drawing for journal page date: (currentDate)")''),
     tlits (u ''logPerformance("Loading drawing for journal page date: '' @ [0x5C] @ u ''(currentDate)")'')),
    (lits (u ''print("'' @ [0x1F504] @ u '' JournalView: Loaded existing drawing for date: (targetDate)")''),
     tlits (u ''logPerformance("Loaded existing drawing for date: '' @ [0x5C] @ u ''(targetDate)")'')),
    (lits (u ''print("'' @ [0x26A0, 0xFE0F] @ u '' JournalView: Date changed during drawing load, ignoring stale data")''),
     tlits (u ''logWarning("Date changed during drawing load, ignoring stale data")'')),
    (lits (u ''print("'' @ [0x1F504] @ u '' JournalView: No existing drawing found for date: (targetDate)")''),
     tlits (u ''logPerformance("No existing drawing found for date: '' @ [0x5C] @ u ''(targetDate)")'')),
    (lits (u ''print("'' @ [0x26A0, 0xFE0F] @ u '' JournalView: Save blocked - operation in progress")''),
     tlits (u ''logWarning("Save blocked - operation in progress")'')),
    (lits (u ''print("'' @ [0x1F4BE] @ u '' JournalView: Starting explicit save to iCloud for (currentDate)")''),
     tlits (u ''logPerformance("Starting explicit save to iCloud for '' @ [0x5C] @ u ''(currentDate)")'')),
    (lits (u ''print("'' @ [0x1F4BE] @ u '' JournalView: Saving drawing to iCloud")''),
     tlits (u ''logPerformance("Saving drawing to iCloud")'')),
    (lits (u ''print("'' @ [0x1F4BE] @ u '' JournalView: Saving photos to iCloud")''),
     tlits (u ''logPerformance("Saving photos to iCloud")'')),
    (lits (u ''print("'' @ [0x2705] @ u '' JournalView: Successfully saved to iCloud")''),
     tlits (u ''logInfo("Successfully saved to iCloud")'')),
    (lits (u ''print("'' @ [0x274C] @ u '' JournalView: Failed to save to iCloud: (error.localizedDescription)")''),
     tlits (u ''logError("Failed to save to iCloud: '' @ [0x5C] @ u ''(error.localizedDescription)")'')),
    (lits (u ''print("'' @ [0x26A0, 0xFE0F]) @ [DotStar] @ lits (u ''")''),
     tlits (u ''logWarning("'') @ [TGroup 1] @ tlits (u ''")'')),
    (lits (u ''print("'' @ [0x274C]) @ [DotStar] @ lits (u ''")''),
     tlits (u ''logError("'') @ [TGroup 1] @ tlits (u ''")'')),
    (lits (u ''print("'' @ [0x2705]) @ [DotStar] @ lits (u ''")''),
     tlits (u ''logInfo("'') @ [TGroup 1] @ tlits (u ''")'')),
    (lits (u ''print("'' @ [0x1F504]) @ [DotStar] @ lits (u ''")''),
     tlits (u ''logPerformance("'') @ [TGroup 1] @ tlits (u ''")'')),
    (lits (u ''print("'' @ [0x1F4F8]) @ [DotStar] @ lits (u ''")''),
     tlits (u ''logPerformance("'') @ [TGroup 1] @ tlits (u ''")'')),
    (lits (u ''print("'' @ [0x1F4BE]) @ [DotStar] @ lits (u ''")''),
     tlits (u ''logPerformance("'') @ [TGroup 1] @ tlits (u ''")'')),
    (lits (u ''print("'' @ [0x1F4E5]) @ [DotStar] @ lits (u ''")''),
     tlits (u ''logPerformance("'') @ [TGroup 1] @ tlits (u ''")''))
  ]\<close>

text \<open>The loop \<^verbatim>\<open>for pattern, replacement in replacements\<close>: the first error ends it.\<close>

fun apply_replacements :: "(atom list \<times> titem list) list \<Rightarrow> str \<Rightarrow> error + str" where
  "apply_replacements [] content = Inr content"
| "apply_replacements ((pattern, replacement) # rs) content =
     (case re_sub pattern replacement content of
        Inl e \<Rightarrow> Inl e
      | Inr content' \<Rightarrow> apply_replacements rs content')"

definition optimize_file :: "world \<Rightarrow> str \<Rightarrow> (error + bool) \<times> world" where
  "optimize_file w file_path =
     (case read_text w file_path of
        Inl e \<Rightarrow> (Inl e, w)
      | Inr original_content \<Rightarrow>
          (case apply_replacements replacements (add_import original_content) of
             Inl e \<Rightarrow> (Inl e, w)
           | Inr content \<Rightarrow>
               if content \<noteq> original_content then
                 (case write_text w file_path content of
                    Inl e \<Rightarrow> (Inl e, w)
                  | Inr w' \<Rightarrow> (Inr True, w'\<lparr>stdout := stdout w' @ [Optimized file_path]\<rparr>))
               else (Inr False, w)))"

definition main :: "world \<Rightarrow> str list \<Rightarrow> (error + unit) \<times> world" where
  "main = main_with optimize_file"

section \<open>Notions used in the proofs\<close>

text \<open>
  \<open>starts_within b a\<close>: an occurrence of \<open>b\<close> could begin at some position of \<open>a\<close>,
  inside \<open>a\<close> or running over its end. Two strings of which neither starts within
  the other cannot overlap in any text.
\<close>

fun starts_within :: "'a list \<Rightarrow> 'a list \<Rightarrow> bool" where
  "starts_within b [] = False"
| "starts_within b (c # cs) = (prefix (c # cs) b \<or> prefix b (c # cs) \<or> starts_within b cs)"

text \<open>The right half of \<^verbatim>\<open>strip\<close>, and the two markers the rule table is checked against.\<close>

definition rstrip :: "str \<Rightarrow> str" where
  "rstrip s = rev (dropWhile isspace (rev s))"

definition import_sp :: str where
  "import_sp = u ''import ''"

definition log_marker :: str where
  "log_marker = u ''log''"

definition rule_ok :: "str \<times> str \<Rightarrow> bool" where
  "rule_ok r \<longleftrightarrow>
     prefix print_marker (fst r) \<and> prefix log_marker (snd r) \<and>
     10 \<notin> set (fst r) \<and> 10 \<notin> set (snd r) \<and>
     \<not> starts_within log_marker (fst r) \<and> \<not> starts_within print_marker (snd r) \<and>
     \<not> starts_within (u ''im'') (fst r) \<and> \<not> starts_within (u ''im'') (snd r)"

text \<open>A world of readable and writable files with the given texts, and nothing printed yet.\<close>

definition world_of :: "(str \<times> str) list \<Rightarrow> world" where
  "world_of fs =
     \<lparr>files = map_of (map (\<lambda>(p, c). (p, \<lparr>readable = True, writable = True, text_of = Some c\<rparr>)) fs),
      stdout = []\<rparr>"

text \<open>The two lines of the scenario of C8.\<close>

definition saved_print :: str where
  \<open>saved_print = u ''print("'' @ [0x2705] @ u '' JournalView: Successfully saved to iCloud")''\<close>

definition saved_log :: str where
  \<open>saved_log = u ''logInfo("Successfully saved to iCloud")''\<close>

text \<open>A line that the fifth and the eleventh rule of the regex table both match.\<close>

definition blocked_print :: str where
  \<open>blocked_print =
     u ''print("'' @ [0x26A0, 0xFE0F] @ u '' JournalView: Save blocked - operation in progress")''\<close>

section \<open>Strings: occurrences and replacement\<close>

lemma str_in_sublist: "str_in x s \<longleftrightarrow> sublist x s"
  by (induction s) (simp_all add: sublist_Cons_right)

lemma str_replace_absent: "old \<noteq> [] \<Longrightarrow> \<not> sublist old s \<Longrightarrow> str_replace old new s = s"
  by (induction s) (auto simp: sublist_Cons_right)

lemma apply_simple_absent:
  "\<forall>r \<in> set rs. fst r \<noteq> [] \<and> \<not> sublist (fst r) s \<Longrightarrow> apply_replacements_simple rs s = s"
  by (induction rs) (auto simp: str_replace_absent)

lemma starts_within_iff:
  "starts_within b a \<longleftrightarrow> (\<exists>v. v \<noteq> [] \<and> suffix v a \<and> (prefix v b \<or> prefix b v))"
proof (induction a)
  case Nil
  then show ?case by simp
next
  case (Cons c cs)
  show ?case
    by (auto simp: Cons suffix_Cons)
qed

lemma starts_within_suffix: "starts_within b a \<Longrightarrow> suffix a a' \<Longrightarrow> starts_within b a'"
  unfolding starts_within_iff by (meson suffix_order.trans)

lemma starts_within_marker: "starts_within b a \<Longrightarrow> prefix m b \<Longrightarrow> starts_within m a"
  unfolding starts_within_iff
  by (meson prefix_order.trans prefix_same_cases)

lemma sublist_starts_within: "sublist x a \<Longrightarrow> x \<noteq> [] \<Longrightarrow> starts_within x a"
  unfolding starts_within_iff sublist_def
  by (metis append_is_Nil_conv prefixI suffixI)

lemma prefix_append_cases: "prefix y (a @ b) \<Longrightarrow> prefix y a \<or> prefix a y"
  by (metis prefix_append prefixI)

lemma str_replace_old_append:
  "old \<noteq> [] \<Longrightarrow> str_replace old new (old @ s) = new @ str_replace old new s"
  by (cases old) simp_all

lemma drop_old: "old \<noteq> [] \<Longrightarrow> prefix old (c # cs) \<Longrightarrow> c # cs = old @ drop (length old - 1) cs"
  by (cases old) (auto simp: prefix_def)

lemma prefix_replace_back:
  "old \<noteq> [] \<Longrightarrow> \<not> starts_within new y \<Longrightarrow> prefix y (str_replace old new s) \<Longrightarrow> prefix y s"
proof (induction s arbitrary: y)
  case Nil
  then show ?case by simp
next
  case (Cons c cs)
  show ?case
  proof (cases y)
    case Nil
    then show ?thesis by simp
  next
    case (Cons d y')
    show ?thesis
    proof (cases "prefix old (c # cs)")
      case True
      with Cons.prems have "prefix y (new @ str_replace old new (drop (length old - 1) cs))"
        by simp
      then have "prefix y new \<or> prefix new y" by (rule prefix_append_cases)
      with Cons.prems(2) \<open>y = d # y'\<close> show ?thesis by auto
    next
      case False
      with Cons.prems \<open>y = d # y'\<close> have "d = c" "prefix y' (str_replace old new cs)"
        "\<not> starts_within new y'" by auto
      with Cons.IH Cons.prems(1) have "prefix y' cs" by blast
      with \<open>d = c\<close> \<open>y = d # y'\<close> show ?thesis by simp
    qed
  qed
qed

lemma prefix_replace_fwd:
  "old \<noteq> [] \<Longrightarrow> \<not> starts_within old y \<Longrightarrow> prefix y s \<Longrightarrow> prefix y (str_replace old new s)"
proof (induction s arbitrary: y)
  case Nil
  then show ?case by simp
next
  case (Cons c cs)
  show ?case
  proof (cases y)
    case Nil
    then show ?thesis by simp
  next
    case (Cons d y')
    with Cons.prems have dc: "d = c" and p': "prefix y' cs" and nsw: "\<not> starts_within old y'"
      and ncmp: "\<not> prefix y old" "\<not> prefix old y" by auto
    have "\<not> prefix old (c # cs)"
    proof
      assume "prefix old (c # cs)"
      with Cons.prems(3) have "prefix old y \<or> prefix y old" by (meson prefix_same_cases)
      with ncmp show False by blast
    qed
    moreover from Cons.IH[OF Cons.prems(1) nsw p'] have "prefix y' (str_replace old new cs)" .
    ultimately show ?thesis using Cons.prems(1) dc \<open>y = d # y'\<close> by simp
  qed
qed

lemma sublist_drop: "sublist x (drop n s) \<Longrightarrow> sublist x s"
  by (metis append_take_drop_id sublist_append)

lemma straddle_starts_within:
  assumes "x = x1 @ x2" "suffix x1 a" "x1 \<noteq> []"
  shows "starts_within x a"
  unfolding starts_within_iff using assms by (metis prefixI)

lemma sublist_new_tail:
  assumes "sublist x (a @ r)" "x \<noteq> []" "\<not> starts_within x a"
  shows "sublist x r"
proof -
  from assms(1) consider "sublist x a" | "sublist x r"
    | x1 x2 where "x = x1 @ x2" "suffix x1 a" "prefix x2 r"
    by (auto simp: sublist_append)
  then show ?thesis
  proof cases
    case 1
    with assms show ?thesis by (simp add: sublist_starts_within)
  next
    case 2
    then show ?thesis .
  next
    case 3
    show ?thesis
    proof (cases "x1 = []")
      case True
      with 3 show ?thesis by auto
    next
      case False
      with 3 assms(3) show ?thesis by (simp add: straddle_starts_within)
    qed
  qed
qed

lemma str_replace_no_create:
  assumes "old \<noteq> []" "x \<noteq> []" "\<not> starts_within new x" "\<not> starts_within x new"
  shows "\<not> sublist x s \<Longrightarrow> \<not> sublist x (str_replace old new s)"
proof (induction s rule: length_induct)
  case (1 s)
  show ?case
  proof (cases s)
    case Nil
    with assms show ?thesis by simp
  next
    case (Cons c cs)
    show ?thesis
    proof (cases "prefix old (c # cs)")
      case True
      let ?s' = "drop (length old - 1) cs"
      have "\<not> sublist x ?s'" using "1.prems" Cons
        by (metis sublist_drop sublist_Cons_right)
      moreover have "length ?s' < length s" using Cons by simp
      ultimately have "\<not> sublist x (str_replace old new ?s')" using "1.IH" by blast
      then have "\<not> sublist x (new @ str_replace old new ?s')"
        using sublist_new_tail assms by blast
      with True Cons assms(1) show ?thesis by simp
    next
      case False
      have ncs: "\<not> sublist x cs" using "1.prems" Cons by (simp add: sublist_Cons_right)
      then have a: "\<not> sublist x (str_replace old new cs)" using "1.IH" Cons by simp
      have b: "\<not> prefix x (c # str_replace old new cs)"
      proof
        assume p: "prefix x (c # str_replace old new cs)"
        from assms(2) obtain d x' where x: "x = d # x'" by (cases x) auto
        with p have "d = c" "prefix x' (str_replace old new cs)" by auto
        moreover from assms(3) x have "\<not> starts_within new x'" by simp
        ultimately have "prefix x' cs" using prefix_replace_back assms(1) by blast
        with \<open>d = c\<close> x have "prefix x (c # cs)" by simp
        with "1.prems" Cons show False by (simp add: sublist_Cons_right)
      qed
      from a b False Cons assms(1) show ?thesis by (simp add: sublist_Cons_right)
    qed
  qed
qed

lemma str_replace_gone:
  assumes "old \<noteq> []" "\<not> starts_within new old" "\<not> starts_within old new"
  shows "\<not> sublist old (str_replace old new s)"
proof (induction s rule: length_induct)
  case (1 s)
  show ?case
  proof (cases s)
    case Nil
    with assms show ?thesis by simp
  next
    case (Cons c cs)
    show ?thesis
    proof (cases "prefix old (c # cs)")
      case True
      let ?s' = "drop (length old - 1) cs"
      have "length ?s' < length s" using Cons by simp
      then have "\<not> sublist old (str_replace old new ?s')" using "1.IH" by blast
      then have "\<not> sublist old (new @ str_replace old new ?s')"
        using sublist_new_tail assms by blast
      with True Cons assms(1) show ?thesis by simp
    next
      case False
      have a: "\<not> sublist old (str_replace old new cs)" using "1.IH" Cons by simp
      have b: "\<not> prefix old (c # str_replace old new cs)"
      proof
        assume p: "prefix old (c # str_replace old new cs)"
        from assms(1) obtain d x' where x: "old = d # x'" by (cases old) auto
        with p have "d = c" "prefix x' (str_replace old new cs)" by auto
        moreover from assms(2) x have "\<not> starts_within new x'" by simp
        ultimately have "prefix x' cs" using prefix_replace_back assms(1) by blast
        with \<open>d = c\<close> x have "prefix old (c # cs)" by simp
        with False show False by simp
      qed
      from a b False Cons assms(1) show ?thesis by (simp add: sublist_Cons_right)
    qed
  qed
qed

lemma str_replace_no_destroy:
  assumes "old \<noteq> []" "\<not> starts_within old x" "\<not> starts_within x old"
  shows "sublist x s \<Longrightarrow> sublist x (str_replace old new s)"
proof (induction s rule: length_induct)
  case (1 s)
  show ?case
  proof (cases "x = []")
    case True
    then show ?thesis by simp
  next
    case xne: False
    show ?thesis
    proof (cases s)
      case Nil
      with "1.prems" xne show ?thesis by simp
    next
      case (Cons c cs)
      show ?thesis
      proof (cases "prefix old (c # cs)")
        case True
        let ?s' = "drop (length old - 1) cs"
        have "c # cs = old @ ?s'" using True assms(1) by (rule drop_old[rotated])
        with "1.prems" Cons have "sublist x (old @ ?s')" by simp
        then have "sublist x ?s'" using sublist_new_tail xne assms(3) by blast
        moreover have "length ?s' < length s" using Cons by simp
        ultimately have "sublist x (str_replace old new ?s')" using "1.IH" by blast
        then have "sublist x (new @ str_replace old new ?s')"
          by (simp add: sublist_append)
        with True Cons assms(1) show ?thesis by simp
      next
        case False
        from "1.prems" Cons consider "prefix x (c # cs)" | "sublist x cs"
          by (auto simp: sublist_Cons_right)
        then show ?thesis
        proof cases
          case 1
          then have "prefix x (str_replace old new (c # cs))"
            using prefix_replace_fwd assms by blast
          with Cons show ?thesis by auto
        next
          case 2
          then have "sublist x (str_replace old new cs)" using "1.IH" Cons by simp
          with False Cons assms(1) show ?thesis by (simp add: sublist_Cons_right)
        qed
      qed
    qed
  qed
qed

lemma str_replace_makes_new:
  assumes "old \<noteq> []"
  shows "sublist old s \<Longrightarrow> sublist new (str_replace old new s)"
proof (induction s)
  case Nil
  with assms show ?case by simp
next
  case (Cons c cs)
  show ?case
  proof (cases "prefix old (c # cs)")
    case True
    with assms show ?thesis by simp
  next
    case False
    with Cons.prems have "sublist old cs" by (simp add: sublist_Cons_right)
    then have "sublist new (str_replace old new cs)" by (rule Cons.IH)
    with False assms show ?thesis by (simp add: sublist_Cons_right)
  qed
qed

lemma str_replace_skip:
  "old \<noteq> [] \<Longrightarrow> \<not> starts_within old a \<Longrightarrow> str_replace old new (a @ s) = a @ str_replace old new s"
proof (induction a)
  case Nil
  then show ?case by simp
next
  case (Cons c a)
  have "\<not> prefix old (c # a @ s)"
  proof
    assume "prefix old (c # a @ s)"
    then have "prefix old ((c # a) @ s)" by simp
    then have "prefix old (c # a) \<or> prefix (c # a) old" by (rule prefix_append_cases)
    with Cons.prems(2) show False by auto
  qed
  with Cons show ?case by simp
qed

section \<open>Lines\<close>

lemma str_split_ne [simp]: "str_split sep s \<noteq> []"
  by (induction s) (auto split: list.splits)

lemma str_split_Cons_nosep:
  "c \<noteq> sep \<Longrightarrow> str_split sep (c # cs) = (c # hd (str_split sep cs)) # tl (str_split sep cs)"
  by (cases "str_split sep cs") (use str_split_ne in auto)

lemma str_split_append_nosep:
  "sep \<notin> set a \<Longrightarrow> str_split sep (a @ b) = (a @ hd (str_split sep b)) # tl (str_split sep b)"
proof (induction a)
  case Nil
  then show ?case by (simp add: str_split_ne)
next
  case (Cons c a)
  then have "c \<noteq> sep" by auto
  have "str_split sep ((c # a) @ b) = (c # hd (str_split sep (a @ b))) # tl (str_split sep (a @ b))"
    using str_split_Cons_nosep[OF \<open>c \<noteq> sep\<close>] by simp
  with Cons show ?case by simp
qed

lemma str_split_hd: "hd (str_split sep s) = takeWhile (\<lambda>c. c \<noteq> sep) s"
proof (induction s)
  case Nil
  then show ?case by simp
next
  case (Cons c cs)
  show ?case
  proof (cases "c = sep")
    case True
    then show ?thesis by simp
  next
    case False
    with Cons show ?thesis by (simp add: str_split_Cons_nosep del: str_split.simps(2))
  qed
qed

lemma str_split_nosep: "l \<in> set (str_split sep s) \<Longrightarrow> sep \<notin> set l"
proof (induction s arbitrary: l)
  case Nil
  then show ?case by simp
next
  case (Cons c cs)
  show ?case
  proof (cases "c = sep")
    case True
    with Cons show ?thesis by auto
  next
    case False
    from Cons.prems have "l = c # hd (str_split sep cs) \<or> l \<in> set (tl (str_split sep cs))"
      by (simp add: str_split_Cons_nosep[OF False] del: str_split.simps(2))
    then show ?thesis
    proof
      assume "l = c # hd (str_split sep cs)"
      moreover have "hd (str_split sep cs) \<in> set (str_split sep cs)" by simp
      ultimately show ?thesis using Cons.IH False by auto
    next
      assume "l \<in> set (tl (str_split sep cs))"
      then have "l \<in> set (str_split sep cs)" by (meson list.set_sel(2) str_split_ne)
      then show ?thesis by (rule Cons.IH)
    qed
  qed
qed

lemma str_join_Cons: "ls \<noteq> [] \<Longrightarrow> str_join sep (l # ls) = l @ sep @ str_join sep ls"
  by (cases ls) simp_all

lemma str_join_split: "str_join [sep] (str_split sep s) = s"
proof (induction s)
  case Nil
  then show ?case by simp
next
  case (Cons c cs)
  show ?case
  proof (cases "c = sep")
    case True
    with Cons show ?thesis by (simp add: str_join_Cons)
  next
    case False
    obtain l ls where sp: "str_split sep cs = l # ls" by (cases "str_split sep cs") auto
    with Cons have "str_join [sep] (l # ls) = cs" by simp
    then have "str_join [sep] ((c # l) # ls) = c # cs" by (cases ls) auto
    with False sp show ?thesis by simp
  qed
qed

lemma str_split_join:
  "ls \<noteq> [] \<Longrightarrow> \<forall>l \<in> set ls. sep \<notin> set l \<Longrightarrow> str_split sep (str_join [sep] ls) = ls"
proof (induction ls)
  case Nil
  then show ?case by simp
next
  case (Cons l ls)
  then have nl: "sep \<notin> set l" by simp
  show ?case
  proof (cases "ls = []")
    case True
    have "str_split sep (l @ []) = (l @ hd (str_split sep [])) # tl (str_split sep [])"
      using nl by (rule str_split_append_nosep)
    with True show ?thesis by simp
  next
    case False
    with Cons have ih: "str_split sep (str_join [sep] ls) = ls" by simp
    have "str_split sep (l @ sep # str_join [sep] ls)
             = (l @ hd (str_split sep (sep # str_join [sep] ls))) # tl (str_split sep (sep # str_join [sep] ls))"
      using nl by (rule str_split_append_nosep)
    with ih False show ?thesis by (simp add: str_join_Cons)
  qed
qed

lemma prefix_takeWhile: "prefix (takeWhile P xs) xs"
  by (metis prefixI takeWhile_dropWhile_id)

lemma prefix_takeWhile_nosep:
  "sep \<notin> set x \<Longrightarrow> prefix x (takeWhile (\<lambda>c. c \<noteq> sep) s) \<longleftrightarrow> prefix x s"
proof (induction s arbitrary: x)
  case Nil
  then show ?case by simp
next
  case (Cons c cs)
  then show ?case by (cases x) auto
qed

lemma sublist_lines:
  "sep \<notin> set x \<Longrightarrow> sublist x s \<longleftrightarrow> (\<exists>l \<in> set (str_split sep s). sublist x l)"
proof (induction s)
  case Nil
  then show ?case by simp
next
  case (Cons c cs)
  show ?case
  proof (cases "c = sep")
    case True
    have "prefix x (c # cs) \<longleftrightarrow> x = []" using True Cons.prems by (cases x) auto
    with True Cons show ?thesis by (auto simp: sublist_Cons_right)
  next
    case False
    have hdin: "hd (str_split sep cs) \<in> set (str_split sep cs)" by simp
    have "(\<exists>l \<in> set (str_split sep (c # cs)). sublist x l)
          \<longleftrightarrow> sublist x (c # hd (str_split sep cs)) \<or> (\<exists>l \<in> set (tl (str_split sep cs)). sublist x l)"
      by (simp add: str_split_Cons_nosep[OF False] del: str_split.simps(2))
    also have "\<dots> \<longleftrightarrow> prefix x (c # hd (str_split sep cs)) \<or> sublist x (hd (str_split sep cs))
          \<or> (\<exists>l \<in> set (tl (str_split sep cs)). sublist x l)"
      by (auto simp: sublist_Cons_right)
    also have "\<dots> \<longleftrightarrow> prefix x (c # hd (str_split sep cs)) \<or> (\<exists>l \<in> set (str_split sep cs). sublist x l)"
      by (metis hd_Cons_tl set_ConsD list.set_intros str_split_ne)
    also have "prefix x (c # hd (str_split sep cs)) \<longleftrightarrow> prefix x (c # cs)"
      using prefix_takeWhile_nosep[OF Cons.prems, of "c # cs"] False by (simp add: str_split_hd)
    finally show ?thesis using Cons by (simp add: sublist_Cons_right)
  qed
qed

lemma str_split_replace:
  assumes "old \<noteq> []" "sep \<notin> set old" "sep \<notin> set new"
  shows "str_split sep (str_replace old new s) = map (str_replace old new) (str_split sep s)"
proof (induction s rule: length_induct)
  case (1 s)
  let ?R = "str_replace old new"
  show ?case
  proof (cases s)
    case Nil
    with assms show ?thesis by simp
  next
    case (Cons c cs)
    show ?thesis
    proof (cases "prefix old (c # cs)")
      case True
      let ?s' = "drop (length old - 1) cs"
      have s: "c # cs = old @ ?s'" using True assms(1) by (rule drop_old[rotated])
      have "length ?s' < length s" using Cons by simp
      then have ih: "str_split sep (?R ?s') = map ?R (str_split sep ?s')" using "1.IH" by blast
      have e1: "?R (c # cs) = new @ ?R ?s'" using True assms(1) by simp
      have e2: "str_split sep (new @ ?R ?s') = (new @ hd (str_split sep (?R ?s'))) # tl (str_split sep (?R ?s'))"
        using assms(3) by (rule str_split_append_nosep)
      have e3: "hd (str_split sep (?R ?s')) = ?R (hd (str_split sep ?s'))"
        unfolding ih by (rule hd_map[OF str_split_ne])
      have e4: "tl (str_split sep (?R ?s')) = map ?R (tl (str_split sep ?s'))"
        unfolding ih by (rule map_tl[symmetric])
      have e5: "str_split sep (old @ ?s') = (old @ hd (str_split sep ?s')) # tl (str_split sep ?s')"
        using assms(2) by (rule str_split_append_nosep)
      have e6: "?R (old @ hd (str_split sep ?s')) = new @ ?R (hd (str_split sep ?s'))"
        using assms(1) by (rule str_replace_old_append)
      have "str_split sep (?R (c # cs)) = (new @ ?R (hd (str_split sep ?s'))) # map ?R (tl (str_split sep ?s'))"
        by (simp only: e1 e2 e3 e4)
      moreover have "map ?R (str_split sep (old @ ?s')) = (new @ ?R (hd (str_split sep ?s'))) # map ?R (tl (str_split sep ?s'))"
        by (simp only: e5 list.map e6)
      ultimately have "str_split sep (?R (c # cs)) = map ?R (str_split sep (old @ ?s'))" by (rule trans[OF _ sym])
      then show ?thesis unfolding Cons s[symmetric] .
    next
      case False
      have ih: "str_split sep (?R cs) = map ?R (str_split sep cs)" using "1.IH" Cons by simp
      have r: "?R (c # cs) = c # ?R cs" using False assms(1) by simp
      show ?thesis
      proof (cases "c = sep")
        case True
        have "str_split sep (c # ?R cs) = [] # str_split sep (?R cs)" using True by simp
        moreover have "map ?R (str_split sep (c # cs)) = [] # map ?R (str_split sep cs)"
          using True assms(1) by simp
        ultimately show ?thesis unfolding Cons r ih by (rule trans[OF _ sym])
      next
        case csep: False
        have "\<not> prefix old (c # hd (str_split sep cs))"
        proof
          assume "prefix old (c # hd (str_split sep cs))"
          moreover have "prefix (c # hd (str_split sep cs)) (c # cs)"
            unfolding str_split_hd by (simp add: prefix_takeWhile)
          ultimately have "prefix old (c # cs)" by (rule prefix_order.trans)
          with False show False ..
        qed
        then have r0: "?R (c # hd (str_split sep cs)) = c # ?R (hd (str_split sep cs))"
          using assms(1) by simp
        have e3: "hd (str_split sep (?R cs)) = ?R (hd (str_split sep cs))"
          unfolding ih by (rule hd_map[OF str_split_ne])
        have e4: "tl (str_split sep (?R cs)) = map ?R (tl (str_split sep cs))"
          unfolding ih by (rule map_tl[symmetric])
        have "str_split sep (c # ?R cs) = (c # ?R (hd (str_split sep cs))) # map ?R (tl (str_split sep cs))"
          by (simp only: str_split_Cons_nosep[OF csep] e3 e4)
        moreover have "map ?R (str_split sep (c # cs)) = (c # ?R (hd (str_split sep cs))) # map ?R (tl (str_split sep cs))"
          by (simp only: str_split_Cons_nosep[OF csep] list.map r0)
        ultimately show ?thesis unfolding Cons r by (rule trans[OF _ sym])
      qed
    qed
  qed
qed

section \<open>Import lines\<close>

lemma str_strip_rstrip: "str_strip s = rstrip (dropWhile isspace s)"
  by (simp add: str_strip_def rstrip_def)

lemma rstrip_prefix: "prefix (rstrip s) s"
proof -
  have "suffix (dropWhile isspace (rev s)) (rev s)" by (rule suffix_dropWhile)
  then have "prefix (rev (dropWhile isspace (rev s))) (rev (rev s))"
    by (simp only: suffix_to_prefix rev_rev_ident)
  then show ?thesis by (simp add: rstrip_def)
qed

lemma rstrip_all_space: "\<forall>c \<in> set b. isspace c \<Longrightarrow> rstrip (a @ b) = rstrip a"
  by (simp add: rstrip_def dropWhile_append)

lemma rstrip_nonspace: "\<not> isspace c \<Longrightarrow> prefix (a @ [c]) (rstrip (a @ c # b))"
proof (induction b rule: rev_induct)
  case Nil
  then show ?case by (simp add: rstrip_def)
next
  case (snoc x xs)
  show ?case
  proof (cases "isspace x")
    case True
    have "rstrip ((a @ c # xs) @ [x]) = rstrip (a @ c # xs)"
      using True by (intro rstrip_all_space) simp
    with snoc show ?thesis by simp
  next
    case False
    then have "rstrip (a @ c # xs @ [x]) = a @ c # xs @ [x]" by (simp add: rstrip_def)
    then show ?thesis by simp
  qed
qed

lemma import_sp_eq: "import_sp = u ''import'' @ [32]"
  by (simp add: import_sp_def u_def)

lemma is_import_line_iff:
  "is_import_line l \<longleftrightarrow>
     (\<exists>rest. dropWhile isspace l = import_sp @ rest \<and> (\<exists>c \<in> set rest. \<not> isspace c))"
proof
  assume "is_import_line l"
  then have p: "prefix import_sp (rstrip (dropWhile isspace l))"
    by (simp add: is_import_line_def startswith_def str_strip_rstrip import_sp_def)
  then have "prefix import_sp (dropWhile isspace l)"
    using rstrip_prefix prefix_order.trans by blast
  then obtain rest where rest: "dropWhile isspace l = import_sp @ rest" by (auto simp: prefix_def)
  have "\<exists>c \<in> set rest. \<not> isspace c"
  proof (rule ccontr)
    assume "\<not> (\<exists>c \<in> set rest. \<not> isspace c)"
    then have "\<forall>c \<in> set (32 # rest). isspace c" by (simp add: isspace_def)
    then have "rstrip (u ''import'' @ (32 # rest)) = rstrip (u ''import'')" by (rule rstrip_all_space)
    then have "length (rstrip (dropWhile isspace l)) \<le> 6"
      using rest by (simp add: import_sp_eq rstrip_def u_def)
    moreover from p have "7 \<le> length (rstrip (dropWhile isspace l))"
      using prefix_length_le by (fastforce simp: import_sp_def u_def)
    ultimately show False by simp
  qed
  with rest show "\<exists>rest. dropWhile isspace l = import_sp @ rest \<and> (\<exists>c \<in> set rest. \<not> isspace c)"
    by blast
next
  assume "\<exists>rest. dropWhile isspace l = import_sp @ rest \<and> (\<exists>c \<in> set rest. \<not> isspace c)"
  then obtain rest c where rest: "dropWhile isspace l = import_sp @ rest" "c \<in> set rest" "\<not> isspace c"
    by blast
  then obtain r1 r2 where "rest = r1 @ c # r2" by (meson split_list)
  with rest have "dropWhile isspace l = (import_sp @ r1) @ c # r2" by simp
  moreover have "prefix ((import_sp @ r1) @ [c]) (rstrip ((import_sp @ r1) @ c # r2))"
    using rest(3) by (rule rstrip_nonspace)
  ultimately have "prefix ((import_sp @ r1) @ [c]) (rstrip (dropWhile isspace l))" by simp
  then have "prefix import_sp (rstrip (dropWhile isspace l))"
    by (metis append.assoc append_prefixD)
  then show "is_import_line l"
    by (simp add: is_import_line_def startswith_def str_strip_rstrip import_sp_def)
qed

lemma lstrip_replace:
  assumes "old \<noteq> []" "\<not> isspace (hd old)" "new \<noteq> []" "\<not> isspace (hd new)"
  shows "dropWhile isspace (str_replace old new l) = str_replace old new (dropWhile isspace l)"
proof (induction l)
  case Nil
  with assms show ?case by simp
next
  case (Cons c cs)
  show ?case
  proof (cases "isspace c")
    case True
    with assms have "\<not> prefix old (c # cs)" by (cases old) auto
    with True Cons assms(1) show ?thesis by simp
  next
    case False
    have "dropWhile isspace (str_replace old new (c # cs)) = str_replace old new (c # cs)"
    proof (cases "prefix old (c # cs)")
      case True
      with assms show ?thesis by (cases new) auto
    next
      case np: False
      with False assms(1) show ?thesis by simp
    qed
    with False show ?thesis by simp
  qed
qed

lemma all_space_no_old:
  assumes "old \<noteq> []" "\<not> isspace (hd old)" "\<forall>c \<in> set s. isspace c"
  shows "\<not> sublist old s"
proof
  assume "sublist old s"
  then have "set old \<subseteq> set s" by (rule set_mono_sublist)
  moreover have "hd old \<in> set old" using assms(1) by simp
  ultimately show False using assms by blast
qed

lemma replace_keeps_non_import:
  assumes "old \<noteq> []" "\<not> isspace (hd old)" "new \<noteq> []" "\<not> isspace (hd new)"
    and "\<not> starts_within new import_sp" "\<not> starts_within old import_sp"
    and "\<not> is_import_line l"
  shows "\<not> is_import_line (str_replace old new l)"
proof
  let ?R = "str_replace old new"
  let ?m = "dropWhile isspace l"
  assume "is_import_line (?R l)"
  then obtain rest c where rest: "dropWhile isspace (?R l) = import_sp @ rest"
      "c \<in> set rest" "\<not> isspace c"
    unfolding is_import_line_iff by blast
  then have rm: "?R ?m = import_sp @ rest" using lstrip_replace[OF assms(1-4)] by simp
  then have "prefix import_sp (?R ?m)" by simp
  then have "prefix import_sp ?m" using prefix_replace_back assms(1,5) by blast
  then obtain rest0 where rest0: "?m = import_sp @ rest0" by (auto simp: prefix_def)
  then have "?R ?m = import_sp @ ?R rest0" using str_replace_skip assms(1,6) by simp
  with rm have r: "rest = ?R rest0" by simp
  have "\<exists>c \<in> set rest0. \<not> isspace c"
  proof (rule ccontr)
    assume "\<not> (\<exists>c \<in> set rest0. \<not> isspace c)"
    then have "\<forall>c \<in> set rest0. isspace c" by blast
    then have "?R rest0 = rest0"
      using all_space_no_old[OF assms(1,2)] str_replace_absent[OF assms(1)] by blast
    with r rest \<open>\<forall>c \<in> set rest0. isspace c\<close> show False by auto
  qed
  with rest0 have "is_import_line l" unfolding is_import_line_iff by blast
  with assms(7) show False ..
qed

lemma import_scan_none:
  "\<forall>l \<in> set ls. \<not> is_import_line l \<Longrightarrow> import_scan idx i ls = idx"
  by (induction ls arbitrary: idx i) simp_all

lemma import_scan_some:
  "\<exists>l \<in> set ls. is_import_line l \<Longrightarrow>
   \<exists>k < length ls. import_scan idx i ls = int (i + k) \<and> is_import_line (ls ! k) \<and>
     (\<forall>j. k < j \<and> j < length ls \<longrightarrow> \<not> is_import_line (ls ! j))"
proof (induction ls arbitrary: idx i)
  case Nil
  then show ?case by simp
next
  case (Cons l ls)
  show ?case
  proof (cases "\<exists>l' \<in> set ls. is_import_line l'")
    case True
    from Cons.IH[OF True, of "if is_import_line l then int i else idx" "Suc i"]
    obtain k where k: "k < length ls"
      "import_scan (if is_import_line l then int i else idx) (Suc i) ls = int (Suc i + k)"
      "is_import_line (ls ! k)" "\<forall>j. k < j \<and> j < length ls \<longrightarrow> \<not> is_import_line (ls ! j)"
      by blast
    have "\<forall>j. Suc k < j \<and> j < length (l # ls) \<longrightarrow> \<not> is_import_line ((l # ls) ! j)"
    proof (intro allI impI)
      fix j assume j: "Suc k < j \<and> j < length (l # ls)"
      then obtain j' where "j = Suc j'" by (cases j) auto
      with j k(4) show "\<not> is_import_line ((l # ls) ! j)" by simp
    qed
    with k show ?thesis by (intro exI[of _ "Suc k"]) simp
  next
    case False
    with Cons.prems have l: "is_import_line l" by auto
    from False have "import_scan (int i) (Suc i) ls = int i" by (intro import_scan_none) blast
    moreover have "\<forall>j. 0 < j \<and> j < length (l # ls) \<longrightarrow> \<not> is_import_line ((l # ls) ! j)"
    proof (intro allI impI)
      fix j assume j: "0 < j \<and> j < length (l # ls)"
      then obtain j' where "j = Suc j'" by (cases j) auto
      with j False show "\<not> is_import_line ((l # ls) ! j)" by auto
    qed
    ultimately show ?thesis using l by (intro exI[of _ 0]) simp
  qed
qed

section \<open>The literal rule table\<close>

lemma replacements_simple_ok: "\<forall>r \<in> set replacements_simple. rule_ok r"
  by (simp add: replacements_simple_def rule_ok_def print_marker_def log_marker_def u_def)

lemma marker_clean: "prefix m b \<Longrightarrow> \<not> starts_within m a \<Longrightarrow> \<not> starts_within b a"
  using starts_within_marker by blast

lemma closed_marker_facts:
  "\<not> starts_within log_marker import_PerformanceLogger"
  "\<not> starts_within print_marker import_PerformanceLogger"
  "\<not> starts_within log_marker import_sp"
  "\<not> starts_within print_marker import_sp"
  "\<not> starts_within print_marker log_marker"
  "\<not> sublist log_marker import_PerformanceLogger"
  "prefix (u ''im'') import_PerformanceLogger"
  "10 \<notin> set import_PerformanceLogger"
  "import_PerformanceLogger \<noteq> []"
  "log_marker \<noteq> []"
  by (simp_all add: log_marker_def print_marker_def import_PerformanceLogger_def import_sp_def
      u_def str_in_sublist[symmetric])

lemma rule_ok_nonempty:
  assumes "rule_ok r"
  shows "fst r \<noteq> []" "snd r \<noteq> []" "\<not> isspace (hd (fst r))" "\<not> isspace (hd (snd r))"
proof -
  from assms have p: "prefix print_marker (fst r)" and l: "prefix log_marker (snd r)"
    by (simp_all add: rule_ok_def)
  from p obtain a where a: "fst r = 112 # a"
    by (auto simp: prefix_def print_marker_def u_def)
  from l obtain b where b: "snd r = 108 # b"
    by (auto simp: prefix_def log_marker_def u_def)
  from a show "fst r \<noteq> []" "\<not> isspace (hd (fst r))" by (simp_all add: isspace_def)
  from b show "snd r \<noteq> []" "\<not> isspace (hd (snd r))" by (simp_all add: isspace_def)
qed

lemma rule_ok_pair:
  assumes "rule_ok r" "rule_ok r'"
  shows "\<not> starts_within (snd r') (fst r)" "\<not> starts_within (fst r) (snd r')"
proof -
  from assms have "prefix log_marker (snd r')" "\<not> starts_within log_marker (fst r)"
    by (simp_all add: rule_ok_def)
  then show "\<not> starts_within (snd r') (fst r)" by (rule marker_clean)
  from assms have "prefix print_marker (fst r)" "\<not> starts_within print_marker (snd r')"
    by (simp_all add: rule_ok_def)
  then show "\<not> starts_within (fst r) (snd r')" by (rule marker_clean)
qed

lemma rule_ok_import:
  assumes "rule_ok r"
  shows "\<not> starts_within (snd r) import_PerformanceLogger"
    "\<not> starts_within import_PerformanceLogger (snd r)"
    "\<not> starts_within (fst r) import_PerformanceLogger"
    "\<not> starts_within import_PerformanceLogger (fst r)"
    "\<not> starts_within (snd r) import_sp"
    "\<not> starts_within (fst r) import_sp"
    "\<not> starts_within (fst r) log_marker"
    "\<not> starts_within log_marker (fst r)"
proof -
  from assms have p: "prefix print_marker (fst r)" and l: "prefix log_marker (snd r)"
    and im: "\<not> starts_within (u ''im'') (fst r)" "\<not> starts_within (u ''im'') (snd r)"
    and lg: "\<not> starts_within log_marker (fst r)"
    by (simp_all add: rule_ok_def)
  show "\<not> starts_within (snd r) import_PerformanceLogger"
    using l closed_marker_facts(1) by (rule marker_clean)
  show "\<not> starts_within import_PerformanceLogger (snd r)"
    using closed_marker_facts(7) im(2) by (rule marker_clean)
  show "\<not> starts_within (fst r) import_PerformanceLogger"
    using p closed_marker_facts(2) by (rule marker_clean)
  show "\<not> starts_within import_PerformanceLogger (fst r)"
    using closed_marker_facts(7) im(1) by (rule marker_clean)
  show "\<not> starts_within (snd r) import_sp"
    using l closed_marker_facts(3) by (rule marker_clean)
  show "\<not> starts_within (fst r) import_sp"
    using p closed_marker_facts(4) by (rule marker_clean)
  show "\<not> starts_within (fst r) log_marker"
    using p closed_marker_facts(5) by (rule marker_clean)
  show "\<not> starts_within log_marker (fst r)" by (rule lg)
qed

lemma apply_keeps_absent:
  assumes "\<forall>r \<in> set rs. rule_ok r" "rule_ok r0" "\<not> sublist (fst r0) s"
  shows "\<not> sublist (fst r0) (apply_replacements_simple rs s)"
  using assms
proof (induction rs arbitrary: s)
  case Nil
  then show ?case by simp
next
  case (Cons r rs)
  obtain old new where r: "r = (old, new)" by (cases r)
  from Cons.prems have ok: "rule_ok (old, new)" by (simp add: r)
  have "\<not> sublist (fst r0) (str_replace old new s)"
    using str_replace_no_create[where old=old and x="fst r0" and new=new and s=s] rule_ok_nonempty[OF ok]
      rule_ok_nonempty[OF Cons.prems(2)] rule_ok_pair[OF Cons.prems(2) ok] Cons.prems(3)
    by simp
  with Cons show ?case by (simp add: r)
qed

lemma apply_removes_olds:
  "\<forall>r \<in> set rs. rule_ok r \<Longrightarrow> \<forall>r \<in> set rs. \<not> sublist (fst r) (apply_replacements_simple rs s)"
proof (induction rs arbitrary: s)
  case Nil
  then show ?case by simp
next
  case (Cons r rs)
  obtain old new where r: "r = (old, new)" by (cases r)
  from Cons.prems have ok: "rule_ok (old, new)" and oks: "\<forall>r \<in> set rs. rule_ok r"
    by (simp_all add: r)
  have "\<not> sublist old (str_replace old new s)"
    using str_replace_gone[where old=old and new=new and s=s] rule_ok_nonempty[OF ok] rule_ok_pair[OF ok ok] by simp
  then have "\<not> sublist (fst (old, new)) (apply_replacements_simple rs (str_replace old new s))"
    using apply_keeps_absent[OF oks ok] by simp
  moreover have "\<forall>r \<in> set rs. \<not> sublist (fst r) (apply_replacements_simple rs (str_replace old new s))"
    using Cons.IH[OF oks] .
  ultimately show ?case by (simp add: r)
qed

lemma apply_idem:
  assumes "\<forall>r \<in> set rs. rule_ok r"
  shows "apply_replacements_simple rs (apply_replacements_simple rs s) = apply_replacements_simple rs s"
proof (rule apply_simple_absent, intro ballI conjI)
  fix r assume r: "r \<in> set rs"
  with assms show "fst r \<noteq> []" using rule_ok_nonempty(1) by blast
  from r show "\<not> sublist (fst r) (apply_replacements_simple rs s)"
    using apply_removes_olds[OF assms] by blast
qed

lemma apply_import_absent:
  assumes "\<forall>r \<in> set rs. rule_ok r" "\<not> sublist import_PerformanceLogger s"
  shows "\<not> sublist import_PerformanceLogger (apply_replacements_simple rs s)"
  using assms
proof (induction rs arbitrary: s)
  case Nil
  then show ?case by simp
next
  case (Cons r rs)
  obtain old new where r: "r = (old, new)" by (cases r)
  from Cons.prems have ok: "rule_ok (old, new)" by (simp add: r)
  have "\<not> sublist import_PerformanceLogger (str_replace old new s)"
    using str_replace_no_create[where old=old and x=import_PerformanceLogger and new=new and s=s] rule_ok_nonempty[OF ok]
      rule_ok_import[OF ok] closed_marker_facts Cons.prems(2)
    by simp
  with Cons show ?case by (simp add: r)
qed

lemma apply_import_present:
  assumes "\<forall>r \<in> set rs. rule_ok r" "sublist import_PerformanceLogger s"
  shows "sublist import_PerformanceLogger (apply_replacements_simple rs s)"
  using assms
proof (induction rs arbitrary: s)
  case Nil
  then show ?case by simp
next
  case (Cons r rs)
  obtain old new where r: "r = (old, new)" by (cases r)
  from Cons.prems have ok: "rule_ok (old, new)" by (simp add: r)
  have "sublist import_PerformanceLogger (str_replace old new s)"
    using str_replace_no_destroy[where old=old and x=import_PerformanceLogger and new=new and s=s] rule_ok_nonempty[OF ok]
      rule_ok_import[OF ok] Cons.prems(2)
    by simp
  with Cons show ?case by (simp add: r)
qed

lemma apply_log_present:
  assumes "\<forall>r \<in> set rs. rule_ok r" "sublist log_marker s"
  shows "sublist log_marker (apply_replacements_simple rs s)"
  using assms
proof (induction rs arbitrary: s)
  case Nil
  then show ?case by simp
next
  case (Cons r rs)
  obtain old new where r: "r = (old, new)" by (cases r)
  from Cons.prems have ok: "rule_ok (old, new)" by (simp add: r)
  have "sublist log_marker (str_replace old new s)"
    using str_replace_no_destroy[where old=old and x=log_marker and new=new and s=s] rule_ok_nonempty[OF ok]
      rule_ok_import[OF ok] Cons.prems(2)
    by simp
  with Cons show ?case by (simp add: r)
qed

lemma apply_changed_log:
  assumes "\<forall>r \<in> set rs. rule_ok r" "apply_replacements_simple rs s \<noteq> s"
  shows "sublist log_marker (apply_replacements_simple rs s)"
  using assms
proof (induction rs arbitrary: s)
  case Nil
  then show ?case by simp
next
  case (Cons r rs)
  obtain old new where r: "r = (old, new)" by (cases r)
  from Cons.prems have ok: "rule_ok (old, new)" and oks: "\<forall>r \<in> set rs. rule_ok r"
    by (simp_all add: r)
  show ?case
  proof (cases "str_replace old new s = s")
    case True
    with Cons.prems(2) Cons.IH[OF oks, of s] show ?thesis by (simp add: r)
  next
    case False
    have ne: "old \<noteq> []" using rule_ok_nonempty(1)[OF ok] by simp
    have "sublist old s"
    proof (rule ccontr)
      assume "\<not> sublist old s"
      with ne have "str_replace old new s = s" by (rule str_replace_absent)
      with False show False ..
    qed
    with ne have "sublist new (str_replace old new s)" by (rule str_replace_makes_new)
    moreover have "sublist log_marker new" using ok by (simp add: rule_ok_def)
    ultimately have "sublist log_marker (str_replace old new s)"
      using sublist_order.order.trans by blast
    then show ?thesis using apply_log_present[OF oks] by (simp add: r)
  qed
qed

lemma apply_lines:
  assumes "\<forall>r \<in> set rs. rule_ok r"
  shows "str_split 10 (apply_replacements_simple rs s) = map (apply_replacements_simple rs) (str_split 10 s)"
  using assms
proof (induction rs arbitrary: s)
  case Nil
  then show ?case by simp
next
  case (Cons r rs)
  obtain old new where r: "r = (old, new)" by (cases r)
  from Cons.prems have ok: "rule_ok (old, new)" and oks: "\<forall>r \<in> set rs. rule_ok r"
    by (simp_all add: r)
  have "str_split 10 (str_replace old new s) = map (str_replace old new) (str_split 10 s)"
    using ok rule_ok_nonempty(1)[OF ok] by (intro str_split_replace) (simp_all add: rule_ok_def)
  with Cons.IH[OF oks] show ?case by (simp add: r comp_def)
qed

lemma apply_non_import:
  assumes "\<forall>r \<in> set rs. rule_ok r" "\<not> is_import_line l"
  shows "\<not> is_import_line (apply_replacements_simple rs l)"
  using assms
proof (induction rs arbitrary: l)
  case Nil
  then show ?case by simp
next
  case (Cons r rs)
  obtain old new where r: "r = (old, new)" by (cases r)
  from Cons.prems have ok: "rule_ok (old, new)" by (simp add: r)
  have "\<not> is_import_line (str_replace old new l)"
    using replace_keeps_non_import[where old=old and new=new and l=l] rule_ok_nonempty[OF ok] rule_ok_import[OF ok]
      Cons.prems(2)
    by simp
  with Cons show ?case by (simp add: r)
qed

section \<open>The literal variant on a text\<close>

lemma old_needs_print:
  assumes "rule_ok r" "\<not> sublist print_marker s"
  shows "\<not> sublist (fst r) s"
proof
  assume "sublist (fst r) s"
  moreover from assms(1) have "sublist print_marker (fst r)" by (simp add: rule_ok_def)
  ultimately have "sublist print_marker s" using sublist_order.order.trans by blast
  with assms(2) show False ..
qed

lemma apply_no_print:
  assumes "\<forall>r \<in> set rs. rule_ok r" "\<not> sublist print_marker s"
  shows "apply_replacements_simple rs s = s"
proof (rule apply_simple_absent, intro ballI conjI)
  fix r assume "r \<in> set rs"
  with assms(1) have ok: "rule_ok r" by blast
  then show "fst r \<noteq> []" by (rule rule_ok_nonempty(1))
  from ok assms(2) show "\<not> sublist (fst r) s" by (rule old_needs_print)
qed

lemma add_import_simple_gate:
  "str_in import_PerformanceLogger c \<or> \<not> str_in print_marker c \<Longrightarrow> add_import_simple c = c"
  by (auto simp: add_import_simple_def)

lemma add_import_simple_none:
  "\<forall>l \<in> set (str_split 10 c). \<not> is_import_line l \<Longrightarrow> add_import_simple c = c"
  by (simp add: add_import_simple_def Let_def import_scan_none)

lemma add_import_simple_inserted:
  assumes "\<not> str_in import_PerformanceLogger c" "str_in print_marker c"
    and "\<exists>l \<in> set (str_split 10 c). is_import_line l"
  shows "\<exists>k < length (str_split 10 c).
           is_import_line (str_split 10 c ! k) \<and>
           (\<forall>j. k < j \<and> j < length (str_split 10 c) \<longrightarrow> \<not> is_import_line (str_split 10 c ! j)) \<and>
           add_import_simple c =
             str_join [10] (list_insert (Suc k) import_PerformanceLogger (str_split 10 c))"
proof -
  from import_scan_some[OF assms(3), of "- 1" 0]
  obtain k where k: "k < length (str_split 10 c)"
    "import_scan (- 1) 0 (str_split 10 c) = int k"
    "is_import_line (str_split 10 c ! k)"
    "\<forall>j. k < j \<and> j < length (str_split 10 c) \<longrightarrow> \<not> is_import_line (str_split 10 c ! j)"
    by auto
  have "nat (int k + 1) = Suc k" by simp
  with k(2) assms(1,2)
  have "add_import_simple c = str_join [10] (list_insert (Suc k) import_PerformanceLogger (str_split 10 c))"
    by (simp add: add_import_simple_def Let_def)
  with k show ?thesis by blast
qed

lemma set_list_insert: "set (list_insert n x xs) = insert x (set xs)"
proof -
  have "set (take n xs) \<union> set (drop n xs) = set xs"
    by (metis append_take_drop_id set_append)
  then show ?thesis by (auto simp: list_insert_def)
qed

lemma lines_inserted:
  "str_split 10 (str_join [10] (list_insert n import_PerformanceLogger (str_split 10 c)))
   = list_insert n import_PerformanceLogger (str_split 10 c)"
proof (rule str_split_join)
  show "list_insert n import_PerformanceLogger (str_split 10 c) \<noteq> []"
    by (simp add: list_insert_def)
  show "\<forall>l \<in> set (list_insert n import_PerformanceLogger (str_split 10 c)). 10 \<notin> set l"
    using closed_marker_facts(8) str_split_nosep by (auto simp: set_list_insert)
qed

lemma inserted_has_import:
  "sublist import_PerformanceLogger
     (str_join [10] (list_insert n import_PerformanceLogger (str_split 10 c)))"
proof -
  have "import_PerformanceLogger \<in> set (str_split 10
      (str_join [10] (list_insert n import_PerformanceLogger (str_split 10 c))))"
    by (simp add: lines_inserted set_list_insert)
  then show ?thesis
    using sublist_lines[OF closed_marker_facts(8)] by blast
qed

lemma add_import_simple_cases:
  "add_import_simple c = c \<or>
   (\<not> sublist import_PerformanceLogger c \<and> sublist print_marker c \<and>
    (\<exists>k. add_import_simple c =
       str_join [10] (list_insert (Suc k) import_PerformanceLogger (str_split 10 c))))"
proof (cases "\<not> str_in import_PerformanceLogger c \<and> str_in print_marker c
              \<and> (\<exists>l \<in> set (str_split 10 c). is_import_line l)")
  case True
  with add_import_simple_inserted[of c] show ?thesis by (auto simp: str_in_sublist)
next
  case False
  then show ?thesis using add_import_simple_gate add_import_simple_none by blast
qed

lemma transform_simple_idem: "transform_simple (transform_simple c) = transform_simple c"
proof -
  let ?B = "apply_replacements_simple replacements_simple"
  let ?c1 = "add_import_simple c"
  let ?c2 = "?B ?c1"
  note ok = replacements_simple_ok
  have stay: "add_import_simple ?c2 = ?c2"
  proof (cases "sublist import_PerformanceLogger ?c2")
    case True
    then show ?thesis by (simp add: add_import_simple_gate str_in_sublist)
  next
    case False
    then have n1: "\<not> sublist import_PerformanceLogger ?c1"
      using apply_import_present[OF ok] by blast
    have c1: "?c1 = c"
      using add_import_simple_cases[of c] n1 inserted_has_import by metis
    show ?thesis
    proof (cases "sublist print_marker ?c2")
      case np: False
      then show ?thesis by (simp add: add_import_simple_gate str_in_sublist)
    next
      case True
      have pc: "sublist print_marker c"
      proof (rule ccontr)
        assume "\<not> sublist print_marker c"
        then have "?B c = c" using apply_no_print[OF ok] by blast
        with True c1 \<open>\<not> sublist print_marker c\<close> show False by simp
      qed
      have noimp: "\<forall>l \<in> set (str_split 10 c). \<not> is_import_line l"
      proof (rule ccontr)
        assume "\<not> (\<forall>l \<in> set (str_split 10 c). \<not> is_import_line l)"
        then have "\<exists>l \<in> set (str_split 10 c). is_import_line l" by blast
        with add_import_simple_inserted[of c] n1 c1 pc
        obtain k where "add_import_simple c =
             str_join [10] (list_insert (Suc k) import_PerformanceLogger (str_split 10 c))"
          by (auto simp: str_in_sublist)
        with n1 inserted_has_import show False by metis
      qed
      have "str_split 10 ?c2 = map ?B (str_split 10 c)"
        using apply_lines[OF ok] c1 by simp
      then have "\<forall>l \<in> set (str_split 10 ?c2). \<not> is_import_line l"
        using noimp apply_non_import[OF ok] by auto
      then show ?thesis by (rule add_import_simple_none)
    qed
  qed
  have "transform_simple ?c2 = ?B (add_import_simple ?c2)" by (simp add: transform_simple_def)
  also have "\<dots> = ?B ?c2" by (simp only: stay)
  also have "\<dots> = ?c2" by (rule apply_idem[OF ok])
  finally show ?thesis by (simp add: transform_simple_def)
qed

lemma transform_simple_no_print:
  assumes "\<not> str_in print_marker c"
  shows "transform_simple c = c"
  using assms apply_no_print[OF replacements_simple_ok]
  by (simp add: transform_simple_def add_import_simple_gate str_in_sublist)

section \<open>The literal variant on a file\<close>

lemma read_world_of: "read_text (world_of ((p, c) # fs)) p = Inr c"
  by (simp add: read_text_def world_of_def)

lemma files_world_of:
  "files (world_of ((p, c) # fs)) =
     (files (world_of fs))(p \<mapsto> \<lparr>readable = True, writable = True, text_of = Some c\<rparr>)"
  by (simp add: world_of_def)

lemma stdout_world_of: "stdout (world_of fs) = []"
  by (simp add: world_of_def)

lemma optimize_file_simple_unchanged:
  "read_text w p = Inr c \<Longrightarrow> transform_simple c = c \<Longrightarrow> optimize_file_simple w p = (Inr False, w)"
  by (simp add: optimize_file_simple_def)

lemma optimize_file_simple_changed:
  "read_text w p = Inr c \<Longrightarrow> transform_simple c \<noteq> c \<Longrightarrow> files w p = Some f \<Longrightarrow> writable f \<Longrightarrow>
   optimize_file_simple w p =
     (Inr True, w\<lparr>files := (files w)(p \<mapsto> f\<lparr>text_of := Some (transform_simple c)\<rparr>),
                   stdout := stdout w @ [Optimized p]\<rparr>)"
  by (simp add: optimize_file_simple_def write_text_def)

lemma optimize_file_simple_unwritable:
  "read_text w p = Inr c \<Longrightarrow> transform_simple c \<noteq> c \<Longrightarrow> files w p = Some f \<Longrightarrow> \<not> writable f \<Longrightarrow>
   optimize_file_simple w p = (Inl OSError, w)"
  by (simp add: optimize_file_simple_def write_text_def)

lemma optimize_file_simple_no_print:
  "read_text w p = Inr c \<Longrightarrow> \<not> str_in print_marker c \<Longrightarrow> optimize_file_simple w p = (Inr False, w)"
  by (simp add: optimize_file_simple_unchanged transform_simple_no_print)

lemma optimize_file_simple_error:
  "optimize_file_simple w p = (Inl e, w') \<Longrightarrow> w' = w"
  by (auto simp: optimize_file_simple_def Let_def split: sum.splits if_splits)

lemma optimize_file_simple_frame:
  "optimize_file_simple w p = (r, w') \<Longrightarrow> q \<noteq> p \<Longrightarrow> files w' q = files w q"
  by (auto simp: optimize_file_simple_def write_text_def Let_def
      split: sum.splits if_splits option.splits)

lemma optimize_file_simple_file:
  assumes "optimize_file_simple w p = (Inr b, w')"
  shows "\<exists>f c. files w p = Some f \<and> text_of f = Some c \<and>
           files w' p = Some (f\<lparr>text_of := Some (transform_simple c)\<rparr>)"
proof -
  from assms obtain c where c: "read_text w p = Inr c"
    by (auto simp: optimize_file_simple_def split: sum.splits)
  then obtain f where f: "files w p = Some f" "text_of f = Some c"
    by (auto simp: read_text_def split: option.splits if_splits)
  show ?thesis
  proof (cases "transform_simple c = c")
    case True
    with c assms have "w' = w" by (simp add: optimize_file_simple_unchanged)
    moreover from f True have "f\<lparr>text_of := Some (transform_simple c)\<rparr> = f" by (cases f) simp
    ultimately show ?thesis using f by simp
  next
    case False
    with c f assms have "files w' p = Some (f\<lparr>text_of := Some (transform_simple c)\<rparr>)"
      by (auto simp: optimize_file_simple_def write_text_def split: if_splits)
    with f show ?thesis by simp
  qed
qed

lemma apply_saved: "apply_replacements_simple replacements_simple saved_print = saved_log"
  by (simp add: replacements_simple_def saved_print_def saved_log_def u_def)

lemma add_import_saved: "add_import_simple saved_print = saved_print"
  by (simp add: add_import_simple_def saved_print_def import_PerformanceLogger_def print_marker_def
      u_def is_import_line_def str_strip_def startswith_def isspace_def)

lemma transform_saved: "transform_simple saved_print = saved_log"
  by (simp add: transform_simple_def add_import_saved apply_saved)

lemma saved_rule: "(saved_print, saved_log) \<in> set replacements_simple"
  by (simp add: replacements_simple_def saved_print_def saved_log_def)

lemma saved_differ: "saved_print \<noteq> saved_log"
  by (simp add: saved_print_def saved_log_def u_def)

lemma split_saved: "str_split 10 saved_print = [saved_print]"
  by (simp add: saved_print_def u_def)

lemma add_import_simple_lines:
  "str_split 10 (add_import_simple c) = str_split 10 c \<or>
   (\<exists>k. str_split 10 (add_import_simple c) = list_insert k import_PerformanceLogger (str_split 10 c))"
  using add_import_simple_cases[of c] lines_inserted by metis

lemma transform_simple_lines:
  "str_split 10 (transform_simple c) =
     map (apply_replacements_simple replacements_simple) (str_split 10 (add_import_simple c))"
  by (simp add: transform_simple_def apply_lines[OF replacements_simple_ok])

lemma apply_import_line:
  "apply_replacements_simple replacements_simple l = import_PerformanceLogger
   \<longleftrightarrow> l = import_PerformanceLogger"
proof
  let ?B = "apply_replacements_simple replacements_simple"
  note ok = replacements_simple_ok
  assume a: "?B l = import_PerformanceLogger"
  have "?B l = l"
  proof (rule ccontr)
    assume "?B l \<noteq> l"
    with ok have "sublist log_marker (?B l)" by (rule apply_changed_log)
    with a closed_marker_facts(6) show False by simp
  qed
  with a show "l = import_PerformanceLogger" by simp
next
  let ?B = "apply_replacements_simple replacements_simple"
  note ok = replacements_simple_ok
  assume l: "l = import_PerformanceLogger"
  have "?B import_PerformanceLogger = import_PerformanceLogger"
  proof (rule apply_simple_absent, intro ballI conjI)
    fix r assume "r \<in> set replacements_simple"
    with ok have r: "rule_ok r" by blast
    then show "fst r \<noteq> []" by (rule rule_ok_nonempty(1))
    show "\<not> sublist (fst r) import_PerformanceLogger"
      using sublist_starts_within rule_ok_import(3)[OF r] rule_ok_nonempty(1)[OF r] by blast
  qed
  with l show "?B l = import_PerformanceLogger" by simp
qed

lemma count_list_map_iff:
  "(\<And>x. f x = y \<longleftrightarrow> x = y) \<Longrightarrow> count_list (map f xs) y = count_list xs y"
  by (induction xs) auto

lemma add_import_gate:
  "str_in import_PerformanceLogger c \<or> \<not> str_in print_marker c \<Longrightarrow> add_import c = c"
  by (auto simp: add_import_def)

lemma optimize_file_simple_reads:
  assumes "optimize_file_simple w p = (Inr b, w')"
  shows "\<exists>c. read_text w p = Inr c \<and> read_text w' p = Inr (transform_simple c)"
proof -
  from assms obtain c where c: "read_text w p = Inr c"
    by (auto simp: optimize_file_simple_def split: sum.splits)
  then obtain f where f: "files w p = Some f" "readable f" "text_of f = Some c"
    by (auto simp: read_text_def split: option.splits if_splits)
  from optimize_file_simple_file[OF assms] f
  have "files w' p = Some (f\<lparr>text_of := Some (transform_simple c)\<rparr>)" by auto
  with f(2) have "read_text w' p = Inr (transform_simple c)" by (simp add: read_text_def)
  with c show ?thesis by blast
qed

text \<open>
  The literal variant is idempotent: after a run that returned, a second run on the same
  file finds nothing to change, returns \<^verbatim>\<open>False\<close> and leaves the world as it is.
\<close>

lemma optimize_file_simple_twice:
  assumes "optimize_file_simple w p = (Inr b, w1)"
  shows "optimize_file_simple w1 p = (Inr False, w1)"
proof -
  from optimize_file_simple_reads[OF assms] obtain c
    where "read_text w1 p = Inr (transform_simple c)" by blast
  then show ?thesis by (rule optimize_file_simple_unchanged) (rule transform_simple_idem)
qed

text \<open>
  The import step of the literal variant, when its gate is open: with an import line in
  the text, the lines of the result are the lines of the text with one line
  \<^verbatim>\<open>import PerformanceLogger\<close> right after the last import line; with none, the
  text stays as it is and the rules are applied to it.
\<close>

lemma add_import_simple_spec:
  assumes "\<not> str_in import_PerformanceLogger c" "str_in print_marker c"
  shows "(\<exists>l \<in> set (str_split 10 c). is_import_line l) \<longrightarrow>
           (\<exists>k < length (str_split 10 c).
              is_import_line (str_split 10 c ! k) \<and>
              (\<forall>j. k < j \<and> j < length (str_split 10 c) \<longrightarrow> \<not> is_import_line (str_split 10 c ! j)) \<and>
              str_split 10 (add_import_simple c) =
                take (Suc k) (str_split 10 c) @ import_PerformanceLogger # drop (Suc k) (str_split 10 c))"
    and "(\<forall>l \<in> set (str_split 10 c). \<not> is_import_line l) \<longrightarrow>
           add_import_simple c = c \<and>
           transform_simple c = apply_replacements_simple replacements_simple c"
proof -
  show "(\<exists>l \<in> set (str_split 10 c). is_import_line l) \<longrightarrow>
           (\<exists>k < length (str_split 10 c).
              is_import_line (str_split 10 c ! k) \<and>
              (\<forall>j. k < j \<and> j < length (str_split 10 c) \<longrightarrow> \<not> is_import_line (str_split 10 c ! j)) \<and>
              str_split 10 (add_import_simple c) =
                take (Suc k) (str_split 10 c) @ import_PerformanceLogger # drop (Suc k) (str_split 10 c))"
  proof
    assume "\<exists>l \<in> set (str_split 10 c). is_import_line l"
    from add_import_simple_inserted[OF assms this] obtain k where k: "k < length (str_split 10 c)"
      "is_import_line (str_split 10 c ! k)"
      "\<forall>j. k < j \<and> j < length (str_split 10 c) \<longrightarrow> \<not> is_import_line (str_split 10 c ! j)"
      "add_import_simple c =
             str_join [10] (list_insert (Suc k) import_PerformanceLogger (str_split 10 c))"
      by blast
    from k(4) have "str_split 10 (add_import_simple c) =
        take (Suc k) (str_split 10 c) @ import_PerformanceLogger # drop (Suc k) (str_split 10 c)"
      by (simp add: lines_inserted) (simp add: list_insert_def)
    with k(1-3) show "\<exists>k < length (str_split 10 c).
              is_import_line (str_split 10 c ! k) \<and>
              (\<forall>j. k < j \<and> j < length (str_split 10 c) \<longrightarrow> \<not> is_import_line (str_split 10 c ! j)) \<and>
              str_split 10 (add_import_simple c) =
                take (Suc k) (str_split 10 c) @ import_PerformanceLogger # drop (Suc k) (str_split 10 c)"
      by blast
  qed
  show "(\<forall>l \<in> set (str_split 10 c). \<not> is_import_line l) \<longrightarrow>
           add_import_simple c = c \<and>
           transform_simple c = apply_replacements_simple replacements_simple c"
    by (simp add: add_import_simple_none transform_simple_def)
qed

text \<open>
  The literal variant on a text that needs the import, has an import line and has no
  occurrence of any rule's left side: the result is the text with the import line put
  in, it differs from the text, and so the file is written and \<^verbatim>\<open>True\<close> returned.
\<close>

lemma transform_simple_import_only:
  assumes "\<not> str_in import_PerformanceLogger c" "str_in print_marker c"
    and "\<exists>l \<in> set (str_split 10 c). is_import_line l"
    and "\<forall>r \<in> set replacements_simple. \<not> str_in (fst r) c"
  shows "transform_simple c = add_import_simple c" "transform_simple c \<noteq> c"
proof -
  note ok = replacements_simple_ok
  from add_import_simple_inserted[OF assms(1-3)] obtain k where
    k: "add_import_simple c =
             str_join [10] (list_insert (Suc k) import_PerformanceLogger (str_split 10 c))"
    by blast
  have lines: "str_split 10 (add_import_simple c) =
      list_insert (Suc k) import_PerformanceLogger (str_split 10 c)"
    by (simp add: k lines_inserted)
  have "apply_replacements_simple replacements_simple (add_import_simple c) = add_import_simple c"
  proof (rule apply_simple_absent, intro ballI conjI)
    fix r assume r: "r \<in> set replacements_simple"
    with ok have rk: "rule_ok r" by blast
    then show "fst r \<noteq> []" by (rule rule_ok_nonempty(1))
    from rk have n10: "10 \<notin> set (fst r)" by (simp add: rule_ok_def)
    show "\<not> sublist (fst r) (add_import_simple c)"
    proof
      assume "sublist (fst r) (add_import_simple c)"
      then obtain l where l: "l \<in> set (str_split 10 (add_import_simple c))" "sublist (fst r) l"
        using sublist_lines[OF n10] by blast
      from l(1) have "l = import_PerformanceLogger \<or> l \<in> set (str_split 10 c)"
        by (simp add: lines set_list_insert)
      then show False
      proof
        assume "l = import_PerformanceLogger"
        with l(2) show False
          using sublist_starts_within rule_ok_import(3)[OF rk] rule_ok_nonempty(1)[OF rk] by blast
      next
        assume "l \<in> set (str_split 10 c)"
        with l(2) have "sublist (fst r) c" using sublist_lines[OF n10] by blast
        with assms(4) r show False by (simp add: str_in_sublist)
      qed
    qed
  qed
  then show t: "transform_simple c = add_import_simple c" by (simp add: transform_simple_def)
  have "sublist import_PerformanceLogger (add_import_simple c)"
    by (simp only: k inserted_has_import)
  with assms(1) t show "transform_simple c \<noteq> c" by (auto simp: str_in_sublist)
qed

text \<open>The loop of the literal variant applies the rules one after the other, each to
  the text the earlier ones produced; and no two rules have the same left side.\<close>

lemma apply_replacements_simple_append:
  "apply_replacements_simple (rs1 @ rs2) c =
     apply_replacements_simple rs2 (apply_replacements_simple rs1 c)"
  by (induction rs1 arbitrary: c) auto

lemma replacements_simple_distinct: "distinct (map fst replacements_simple)"
  by (simp add: replacements_simple_def u_def)

section \<open>The loop of \<^verbatim>\<open>main\<close>\<close>

lemma count_loop_append:
  "count_loop opt w pre n = (Inr n', w1) \<Longrightarrow>
   count_loop opt w (pre @ rest) n = count_loop opt w1 rest n'"
proof (induction pre arbitrary: w n)
  case Nil
  then show ?case by simp
next
  case (Cons p pre)
  obtain r w' where o: "opt w p = (r, w')" by (cases "opt w p")
  show ?case
  proof (cases r)
    case (Inl e)
    with o Cons.prems show ?thesis by simp
  next
    case (Inr b)
    with o Cons.prems Cons.IH[of w' "if b then n + 1 else n"] show ?thesis by simp
  qed
qed

lemma count_loop_simple_frame:
  "count_loop optimize_file_simple w pre n = (r, w1) \<Longrightarrow> q \<notin> set pre \<Longrightarrow> files w1 q = files w q"
proof (induction pre arbitrary: w n)
  case Nil
  then show ?case by simp
next
  case (Cons p pre)
  obtain r' w' where o: "optimize_file_simple w p = (r', w')" by (cases "optimize_file_simple w p")
  from Cons.prems(2) have qp: "q \<noteq> p" and q: "q \<notin> set pre" by auto
  from o qp have fr: "files w' q = files w q" by (rule optimize_file_simple_frame)
  show ?case
  proof (cases r')
    case (Inl e)
    with o Cons.prems(1) fr show ?thesis by simp
  next
    case (Inr b)
    with o Cons.prems(1) have "count_loop optimize_file_simple w' pre (if b then n + 1 else n) = (r, w1)"
      by simp
    from Cons.IH[OF this q] fr show ?thesis by simp
  qed
qed

lemma count_loop_simple_files:
  "count_loop optimize_file_simple w pre n = (Inr n', w1) \<Longrightarrow> distinct pre \<Longrightarrow> q \<in> set pre \<Longrightarrow>
   \<exists>f c. files w q = Some f \<and> text_of f = Some c \<and>
     files w1 q = Some (f\<lparr>text_of := Some (transform_simple c)\<rparr>)"
proof (induction pre arbitrary: w n)
  case Nil
  then show ?case by simp
next
  case (Cons p pre)
  obtain r' w' where o: "optimize_file_simple w p = (r', w')" by (cases "optimize_file_simple w p")
  with Cons.prems(1) obtain b where b: "r' = Inr b"
    and rest: "count_loop optimize_file_simple w' pre (if b then n + 1 else n) = (Inr n', w1)"
    by (cases r') auto
  from Cons.prems(2) have d: "distinct pre" and pn: "p \<notin> set pre" by auto
  show ?case
  proof (cases "q = p")
    case True
    from o b obtain f c where "files w p = Some f" "text_of f = Some c"
      "files w' p = Some (f\<lparr>text_of := Some (transform_simple c)\<rparr>)"
      using optimize_file_simple_file by blast
    moreover have "files w1 p = files w' p" using rest pn by (rule count_loop_simple_frame)
    ultimately show ?thesis using True by simp
  next
    case False
    with Cons.prems(3) have "q \<in> set pre" by simp
    from Cons.IH[OF rest d this] obtain f c where "files w' q = Some f" "text_of f = Some c"
      "files w1 q = Some (f\<lparr>text_of := Some (transform_simple c)\<rparr>)" by blast
    moreover have "files w' q = files w q" using o False by (rule optimize_file_simple_frame)
    ultimately show ?thesis by simp
  qed
qed

section \<open>The regex variant never gets past its eleventh rule\<close>

lemma template_lits_tlits: "template_lits (tlits s) = Some s"
  by (induction s) (simp_all add: tlits_def)

lemma template_lits_group: "template_lits (tlits s @ TGroup g # r) = None"
  by (induction s) (simp_all add: tlits_def)

lemma re_sub_tlits: "re_sub p (tlits s) c = Inr (sub_scan p s c)"
  by (simp add: re_sub_def template_lits_tlits)

lemma re_sub_group: "re_sub p (tlits s @ TGroup g # r) c = Inl ReError"
  by (simp add: re_sub_def template_lits_group)

lemma DotStar_not_lits: "DotStar \<notin> set (lits s)"
  by (auto simp: lits_def)

text \<open>
  The first ten templates are literal text and their substitutions go through; the
  eleventh template refers to group 1 of a pattern without groups, so its
  \<^verbatim>\<open>re.sub\<close> raises, whatever the content is.
\<close>

lemma apply_replacements_raises: "apply_replacements replacements c = Inl ReError"
  unfolding replacements_def by (simp add: re_sub_tlits re_sub_group)

lemma optimize_file_raises:
  "optimize_file w p = (case read_text w p of Inl e \<Rightarrow> (Inl e, w) | Inr c \<Rightarrow> (Inl ReError, w))"
  by (simp add: optimize_file_def apply_replacements_raises split: sum.splits)

lemma optimize_file_keeps_world: "optimize_file w p = (r, w') \<Longrightarrow> w' = w"
  by (auto simp: optimize_file_raises split: sum.splits)

lemma optimize_file_never_returns: "optimize_file w p \<noteq> (Inr b, w')"
  by (auto simp: optimize_file_raises split: sum.splits)

lemma count_loop_regex:
  "count_loop optimize_file w pre n = (Inr n', w1) \<Longrightarrow> pre = [] \<and> w1 = w"
proof (cases pre)
  case Nil
  then show "count_loop optimize_file w pre n = (Inr n', w1) \<Longrightarrow> pre = [] \<and> w1 = w" by simp
next
  case (Cons p ps)
  assume a: "count_loop optimize_file w pre n = (Inr n', w1)"
  obtain r w' where o: "optimize_file w p = (r, w')" by (cases "optimize_file w p")
  with optimize_file_never_returns[of w p] obtain e where "r = Inl e" by (cases r) auto
  with a o Cons show "pre = [] \<and> w1 = w" by simp
qed

section \<open>C1: files without a print call\<close>

text \<open>
  C1, at a file without \<^verbatim>\<open>print(\<close>. The literal variant returns \<^verbatim>\<open>False\<close> and leaves
  the world as it is (\<open>optimize_file_simple_no_print\<close> is the general statement). The
  regex variant leaves the file as it is too, but it does not return \<^verbatim>\<open>False\<close>: it
  raises at its eleventh rule.
\<close>

theorem no_print_file_regex_raises:
  \<open>\<not> str_in print_marker (u ''let x = 1'') \<and>
   optimize_file (world_of [(u ''A.swift'', u ''let x = 1'')]) (u ''A.swift'')
     = (Inl ReError, world_of [(u ''A.swift'', u ''let x = 1'')]) \<and>
   optimize_file_simple (world_of [(u ''A.swift'', u ''let x = 1'')]) (u ''A.swift'')
     = (Inr False, world_of [(u ''A.swift'', u ''let x = 1'')])\<close>
proof -
  have np: \<open>\<not> str_in print_marker (u ''let x = 1'')\<close>
    by (simp add: print_marker_def u_def)
  have \<open>optimize_file (world_of [(u ''A.swift'', u ''let x = 1'')]) (u ''A.swift'')
     = (Inl ReError, world_of [(u ''A.swift'', u ''let x = 1'')])\<close>
    by (simp add: optimize_file_raises read_world_of)
  moreover have \<open>optimize_file_simple (world_of [(u ''A.swift'', u ''let x = 1'')]) (u ''A.swift'')
     = (Inr False, world_of [(u ''A.swift'', u ''let x = 1'')])\<close>
    using read_world_of np by (rule optimize_file_simple_no_print)
  ultimately show ?thesis using np by blast
qed

section \<open>C2: running twice\<close>

text \<open>
  C2, at a file with the saved line. The literal variant writes the file in the first
  run and returns \<^verbatim>\<open>False\<close> in the second (\<open>optimize_file_simple_twice\<close> and
  \<open>transform_simple_idem\<close> are the general statements). The regex variant raises in
  the first run and, the file being as it was, raises again in the second: no run
  reports "not modified".
\<close>

theorem second_run_regex_raises:
  "optimize_file (world_of [(u ''A.swift'', saved_print)]) (u ''A.swift'')
     = (Inl ReError, world_of [(u ''A.swift'', saved_print)]) \<and>
   optimize_file (snd (optimize_file (world_of [(u ''A.swift'', saved_print)]) (u ''A.swift'')))
       (u ''A.swift'')
     = (Inl ReError, world_of [(u ''A.swift'', saved_print)]) \<and>
   optimize_file_simple (world_of [(u ''A.swift'', saved_print)]) (u ''A.swift'')
     = (Inr True, (world_of [(u ''A.swift'', saved_log)])\<lparr>stdout := [Optimized (u ''A.swift'')]\<rparr>) \<and>
   optimize_file_simple
       ((world_of [(u ''A.swift'', saved_log)])\<lparr>stdout := [Optimized (u ''A.swift'')]\<rparr>)
       (u ''A.swift'')
     = (Inr False, (world_of [(u ''A.swift'', saved_log)])\<lparr>stdout := [Optimized (u ''A.swift'')]\<rparr>)"
proof -
  let ?A = "u ''A.swift''"
  let ?w = "world_of [(?A, saved_print)]"
  let ?w1 = "(world_of [(?A, saved_log)])\<lparr>stdout := [Optimized ?A]\<rparr>"
  have r: "optimize_file ?w ?A = (Inl ReError, ?w)"
    by (simp add: optimize_file_raises read_world_of)
  then have r2: "optimize_file (snd (optimize_file ?w ?A)) ?A = (Inl ReError, ?w)" by simp
  have "optimize_file_simple ?w ?A =
     (Inr True, ?w\<lparr>files := (files ?w)(?A \<mapsto>
          \<lparr>readable = True, writable = True, text_of = Some saved_print\<rparr>
            \<lparr>text_of := Some (transform_simple saved_print)\<rparr>),
        stdout := stdout ?w @ [Optimized ?A]\<rparr>)"
    by (rule optimize_file_simple_changed[OF read_world_of])
      (simp_all add: transform_saved saved_differ[symmetric] files_world_of)
  also have "?w\<lparr>files := (files ?w)(?A \<mapsto>
          \<lparr>readable = True, writable = True, text_of = Some saved_print\<rparr>
            \<lparr>text_of := Some (transform_simple saved_print)\<rparr>),
        stdout := stdout ?w @ [Optimized ?A]\<rparr> = ?w1"
    by (simp add: world_of_def transform_saved)
  finally have s1: "optimize_file_simple ?w ?A = (Inr True, ?w1)" .
  then have s2: "optimize_file_simple ?w1 ?A = (Inr False, ?w1)"
    by (rule optimize_file_simple_twice)
  from r r2 s1 s2 show ?thesis by blast
qed

section \<open>C3: the rules with a bare wildcard\<close>

text \<open>
  Every rule of the regex table whose pattern has the bare wildcard \<^verbatim>\<open>.*\<close> has a
  template with \<^verbatim>\<open>\1\<close>, and the pattern has no group.
\<close>

lemma wildcard_rules_raise:
  "(p, t) \<in> set replacements \<Longrightarrow> DotStar \<in> set p \<Longrightarrow> re_sub p t s = Inl ReError"
  unfolding replacements_def by (auto simp: re_sub_group DotStar_not_lits)

text \<open>
  C3, at the text \<^verbatim>\<open>print("\<close>, the warning sign, \<^verbatim>\<open> low disk")\<close>. None of the first ten
  rules matches it: they leave the text as it is. The pattern of the eleventh rule, a
  bare-wildcard rule, matches all 20 characters. Applying that rule does not complete
  and yields no string, neither one with an empty or literal placeholder nor one with
  the message: \<^verbatim>\<open>re.sub\<close> raises \<^verbatim>\<open>re.error\<close> for the reference to a group the pattern
  does not have, and \<^verbatim>\<open>optimize_file\<close> ends with that error, the file as it was.
\<close>

theorem wildcard_rule_does_not_complete:
  \<open>apply_replacements (take 10 replacements) (u ''print("'' @ [0x26A0, 0xFE0F] @ u '' low disk")'')
     = Inr (u ''print("'' @ [0x26A0, 0xFE0F] @ u '' low disk")'') \<and>
   rmatch (fst (replacements ! 10)) (u ''print("'' @ [0x26A0, 0xFE0F] @ u '' low disk")'') = Some 20 \<and>
   re_sub (fst (replacements ! 10)) (snd (replacements ! 10))
     (u ''print("'' @ [0x26A0, 0xFE0F] @ u '' low disk")'') = Inl ReError \<and>
   optimize_file
     (world_of [(u ''A.swift'', u ''print("'' @ [0x26A0, 0xFE0F] @ u '' low disk")'')]) (u ''A.swift'')
     = (Inl ReError, world_of [(u ''A.swift'', u ''print("'' @ [0x26A0, 0xFE0F] @ u '' low disk")'')])\<close>
proof (intro conjI)
  show \<open>apply_replacements (take 10 replacements) (u ''print("'' @ [0x26A0, 0xFE0F] @ u '' low disk")'')
     = Inr (u ''print("'' @ [0x26A0, 0xFE0F] @ u '' low disk")'')\<close>
    by (simp add: replacements_def lits_def u_def re_sub_tlits)
  show \<open>rmatch (fst (replacements ! 10)) (u ''print("'' @ [0x26A0, 0xFE0F] @ u '' low disk")'') = Some 20\<close>
    by (simp add: replacements_def lits_def u_def)
  show \<open>re_sub (fst (replacements ! 10)) (snd (replacements ! 10))
     (u ''print("'' @ [0x26A0, 0xFE0F] @ u '' low disk")'') = Inl ReError\<close>
    by (simp add: replacements_def re_sub_group)
  show \<open>optimize_file
     (world_of [(u ''A.swift'', u ''print("'' @ [0x26A0, 0xFE0F] @ u '' low disk")'')]) (u ''A.swift'')
     = (Inl ReError, world_of [(u ''A.swift'', u ''print("'' @ [0x26A0, 0xFE0F] @ u '' low disk")'')])\<close>
    by (simp add: optimize_file_raises read_world_of)
qed

section \<open>C4: where the import line goes\<close>

text \<open>
  C4, at a text whose last import line also occurs inside an earlier comment line. The
  literal variant puts one line \<^verbatim>\<open>import PerformanceLogger\<close> after the last import line
  (\<open>add_import_simple_spec\<close> is the general statement). The regex variant replaces every
  occurrence of the last match, so the line goes in twice; and then its rules are not
  applied: the loop over the rules raises.
\<close>

theorem regex_import_inserted_twice:
  \<open>add_import (u ''// import UIKit'' @ [10] @ u ''import UIKit'' @ [10] @ u ''print(1)'' @ [10])
   = u ''// import UIKit'' @ [10] @ u ''import PerformanceLogger'' @ [10] @
     u ''import UIKit'' @ [10] @ u ''import PerformanceLogger'' @ [10] @ u ''print(1)'' @ [10] \<and>
   apply_replacements replacements
     (add_import (u ''// import UIKit'' @ [10] @ u ''import UIKit'' @ [10] @ u ''print(1)'' @ [10]))
   = Inl ReError \<and>
   add_import_simple (u ''// import UIKit'' @ [10] @ u ''import UIKit'' @ [10] @ u ''print(1)'' @ [10])
   = u ''// import UIKit'' @ [10] @
     u ''import UIKit'' @ [10] @ u ''import PerformanceLogger'' @ [10] @ u ''print(1)'' @ [10]\<close>
proof (intro conjI)
  show \<open>add_import (u ''// import UIKit'' @ [10] @ u ''import UIKit'' @ [10] @ u ''print(1)'' @ [10])
   = u ''// import UIKit'' @ [10] @ u ''import PerformanceLogger'' @ [10] @
     u ''import UIKit'' @ [10] @ u ''import PerformanceLogger'' @ [10] @ u ''print(1)'' @ [10]\<close>
    by (simp add: add_import_def import_PerformanceLogger_def print_marker_def import_pattern_def
        lits_def u_def isspace_def)
  show \<open>apply_replacements replacements
     (add_import (u ''// import UIKit'' @ [10] @ u ''import UIKit'' @ [10] @ u ''print(1)'' @ [10]))
   = Inl ReError\<close>
    by (rule apply_replacements_raises)
  show \<open>add_import_simple (u ''// import UIKit'' @ [10] @ u ''import UIKit'' @ [10] @ u ''print(1)'' @ [10])
   = u ''// import UIKit'' @ [10] @
     u ''import UIKit'' @ [10] @ u ''import PerformanceLogger'' @ [10] @ u ''print(1)'' @ [10]\<close>
    by (simp add: add_import_simple_def import_PerformanceLogger_def print_marker_def
        is_import_line_def str_strip_def startswith_def list_insert_def u_def isspace_def)
qed

section \<open>C5: an import that is already there\<close>

text \<open>
  C5. When the text already contains \<^verbatim>\<open>import PerformanceLogger\<close>, the import step of
  either variant returns the text as it is. The literal variant then only applies its
  rules, and the text it produces has as many lines \<^verbatim>\<open>import PerformanceLogger\<close> as
  the original; the regex variant leaves the file as it was.
\<close>

theorem import_not_duplicated:
  assumes "str_in import_PerformanceLogger c"
  shows "add_import_simple c = c \<and> add_import c = c \<and>
         transform_simple c = apply_replacements_simple replacements_simple c \<and>
         count_list (str_split 10 (transform_simple c)) import_PerformanceLogger
           = count_list (str_split 10 c) import_PerformanceLogger \<and>
         snd (optimize_file w p) = w"
proof -
  from assms have a: "add_import_simple c = c" by (simp add: add_import_simple_gate)
  from assms have b: "add_import c = c" by (simp add: add_import_gate)
  from a have t: "transform_simple c = apply_replacements_simple replacements_simple c"
    by (simp add: transform_simple_def)
  have "count_list (map (apply_replacements_simple replacements_simple) (str_split 10 c))
          import_PerformanceLogger = count_list (str_split 10 c) import_PerformanceLogger"
    by (rule count_list_map_iff) (rule apply_import_line)
  then have n: "count_list (str_split 10 (transform_simple c)) import_PerformanceLogger
           = count_list (str_split 10 c) import_PerformanceLogger"
    by (simp only: transform_simple_lines a)
  have "snd (optimize_file w p) = w"
    by (simp add: optimize_file_raises split: sum.splits)
  with a b t n show ?thesis by blast
qed

theorem import_not_duplicated_witness:
  \<open>str_in import_PerformanceLogger (u ''import PerformanceLogger'' @ [10] @ u ''print("hello")'') \<and>
   add_import_simple (u ''import PerformanceLogger'' @ [10] @ u ''print("hello")'')
     = u ''import PerformanceLogger'' @ [10] @ u ''print("hello")'' \<and>
   add_import (u ''import PerformanceLogger'' @ [10] @ u ''print("hello")'')
     = u ''import PerformanceLogger'' @ [10] @ u ''print("hello")'' \<and>
   count_list (str_split 10 (transform_simple (u ''import PerformanceLogger'' @ [10] @ u ''print("hello")'')))
       import_PerformanceLogger = 1\<close>
proof -
  let ?c = \<open>u ''import PerformanceLogger'' @ [10] @ u ''print("hello")''\<close>
  have h: "str_in import_PerformanceLogger ?c"
    by (simp add: import_PerformanceLogger_def u_def)
  have cnt: "count_list (str_split 10 ?c) import_PerformanceLogger = 1"
    by (simp add: import_PerformanceLogger_def u_def)
  note r = import_not_duplicated[OF h, of "world_of []" "[]"]
  from r have a: "add_import_simple ?c = ?c" by (rule conjunct1)
  from r have b: "add_import ?c = ?c" by blast
  from r have "count_list (str_split 10 (transform_simple ?c)) import_PerformanceLogger
           = count_list (str_split 10 ?c) import_PerformanceLogger" by blast
  then have n: "count_list (str_split 10 (transform_simple ?c)) import_PerformanceLogger = 1"
    using cnt by (rule trans)
  from h a b n show ?thesis by blast
qed

section \<open>C6: writing only on change\<close>

text \<open>
  C6, at a file with the saved line. In the literal variant the file is written exactly
  when the transformed text differs, and the result says which
  (\<open>optimize_file_simple_unchanged\<close>, \<open>optimize_file_simple_changed\<close>). In the regex
  variant the first ten rules turn the text into the \<^verbatim>\<open>logInfo\<close> line, which differs
  from the original, but the eleventh rule raises before the comparison: nothing is
  written and no boolean is returned.
\<close>

theorem regex_changed_not_written:
  "apply_replacements (take 10 replacements) (add_import saved_print) = Inr saved_log \<and>
   saved_log \<noteq> saved_print \<and>
   optimize_file (world_of [(u ''A.swift'', saved_print)]) (u ''A.swift'')
     = (Inl ReError, world_of [(u ''A.swift'', saved_print)])"
proof (intro conjI)
  show "apply_replacements (take 10 replacements) (add_import saved_print) = Inr saved_log"
    by (simp add: replacements_def add_import_def import_PerformanceLogger_def print_marker_def
        import_pattern_def saved_print_def saved_log_def lits_def u_def re_sub_tlits)
  show "saved_log \<noteq> saved_print" by (simp add: saved_print_def saved_log_def u_def)
  show "optimize_file (world_of [(u ''A.swift'', saved_print)]) (u ''A.swift'')
     = (Inl ReError, world_of [(u ''A.swift'', saved_print)])"
    by (simp add: optimize_file_raises read_world_of)
qed

section \<open>C7: the order of the rules\<close>

text \<open>
  C7, at a line that the fifth rule and the eleventh rule of the regex table both match
  in full. The loop applies the rules in order, and after the first ten the text is the
  fifth rule's \<^verbatim>\<open>logWarning\<close> line; but the eleventh rule raises, so no output shows the
  earlier rule's transformation: the file stays as it was. (In the literal table no two
  rules have the same left side, \<open>replacements_simple_distinct\<close>, and its loop is
  sequential, \<open>apply_replacements_simple_append\<close>.)
\<close>

theorem regex_earlier_rule_not_observed:
  \<open>rmatch (fst (replacements ! 4)) blocked_print = Some (length blocked_print) \<and>
   rmatch (fst (replacements ! 10)) blocked_print = Some (length blocked_print) \<and>
   apply_replacements (take 10 replacements) blocked_print
     = Inr (u ''logWarning("Save blocked - operation in progress")'') \<and>
   optimize_file (world_of [(u ''A.swift'', blocked_print)]) (u ''A.swift'')
     = (Inl ReError, world_of [(u ''A.swift'', blocked_print)])\<close>
proof (intro conjI)
  show "rmatch (fst (replacements ! 4)) blocked_print = Some (length blocked_print)"
    by (simp add: replacements_def blocked_print_def lits_def u_def)
  show "rmatch (fst (replacements ! 10)) blocked_print = Some (length blocked_print)"
    by (simp add: replacements_def blocked_print_def lits_def u_def)
  show \<open>apply_replacements (take 10 replacements) blocked_print
    = Inr (u ''logWarning("Save blocked - operation in progress")'')\<close>
    by (simp add: replacements_def blocked_print_def lits_def u_def re_sub_tlits)
  show \<open>optimize_file (world_of [(u ''A.swift'', blocked_print)]) (u ''A.swift'')
    = (Inl ReError, world_of [(u ''A.swift'', blocked_print)])\<close>
    by (simp add: optimize_file_raises read_world_of)
qed

section \<open>C8: the scenario of the saved line\<close>

text \<open>
  C8. Let a readable and writable file have the line
  \<^verbatim>\<open>print("\<close>, check mark, \<^verbatim>\<open> JournalView: Successfully saved to iCloud")\<close> among its
  lines. The literal variant rewrites the file and returns \<^verbatim>\<open>True\<close>; the lines of the new
  text are the lines of the text after the import step, each put through the rule table,
  and the import step leaves the lines as they are or adds one import line; the rule table
  turns the \<^verbatim>\<open>print\<close> line into \<^verbatim>\<open>logInfo("Successfully saved to iCloud")\<close>, which
  therefore stands in its place, and no line of the new text is the \<^verbatim>\<open>print\<close> line. The
  loop of \<^verbatim>\<open>main\<close> goes on with the counter one higher.
\<close>

theorem saved_line_replaced:
  assumes "files w p = Some f" "readable f" "writable f" "text_of f = Some c"
    and "saved_print \<in> set (str_split 10 c)"
    and "w' = w\<lparr>files := (files w)(p \<mapsto> f\<lparr>text_of := Some (transform_simple c)\<rparr>),
                  stdout := stdout w @ [Optimized p]\<rparr>"
  shows "optimize_file_simple w p = (Inr True, w') \<and>
         str_split 10 (transform_simple c) =
           map (apply_replacements_simple replacements_simple) (str_split 10 (add_import_simple c)) \<and>
         (str_split 10 (add_import_simple c) = str_split 10 c \<or>
          (\<exists>k. str_split 10 (add_import_simple c) =
                 list_insert k import_PerformanceLogger (str_split 10 c))) \<and>
         apply_replacements_simple replacements_simple saved_print = saved_log \<and>
         saved_log \<in> set (str_split 10 (transform_simple c)) \<and>
         saved_print \<notin> set (str_split 10 (transform_simple c)) \<and>
         count_loop optimize_file_simple w (p # rest) n = count_loop optimize_file_simple w' rest (n + 1)"
proof -
  let ?B = "apply_replacements_simple replacements_simple"
  note ok = replacements_simple_ok
  have rd: "read_text w p = Inr c" using assms(1,2,4) by (simp add: read_text_def)
  have "saved_print \<in> set (str_split 10 (add_import_simple c))"
    using add_import_simple_lines[of c] assms(5) by (auto simp: set_list_insert)
  then have "?B saved_print \<in> set (str_split 10 (transform_simple c))"
    unfolding transform_simple_lines by simp
  then have inlog: "saved_log \<in> set (str_split 10 (transform_simple c))"
    by (simp only: apply_saved)
  have notin: "saved_print \<notin> set (str_split 10 (transform_simple c))"
  proof
    assume "saved_print \<in> set (str_split 10 (transform_simple c))"
    then obtain l where "saved_print = ?B l" unfolding transform_simple_lines by auto
    moreover have "\<not> sublist saved_print (?B l)"
      using apply_removes_olds[OF ok, of l] saved_rule by fastforce
    ultimately show False by simp
  qed
  from notin assms(5) have "transform_simple c \<noteq> c" by auto
  with rd assms(1,3,6) have opt: "optimize_file_simple w p = (Inr True, w')"
    by (simp add: optimize_file_simple_changed)
  then have "count_loop optimize_file_simple w (p # rest) n = count_loop optimize_file_simple w' rest (n + 1)"
    by simp
  with opt inlog notin add_import_simple_lines[of c] transform_simple_lines[of c] apply_saved
  show ?thesis by blast
qed

theorem saved_line_replaced_witness:
  "saved_print \<in> set (str_split 10 saved_print) \<and>
   optimize_file_simple (world_of [(u ''JournalView.swift'', saved_print)]) (u ''JournalView.swift'')
     = (Inr True, (world_of [(u ''JournalView.swift'', saved_log)])
                    \<lparr>stdout := [Optimized (u ''JournalView.swift'')]\<rparr>) \<and>
   count_loop optimize_file_simple (world_of [(u ''JournalView.swift'', saved_print)])
       [u ''JournalView.swift''] 0
     = (Inr 1, (world_of [(u ''JournalView.swift'', saved_log)])
                    \<lparr>stdout := [Optimized (u ''JournalView.swift'')]\<rparr>)"
proof -
  let ?p = "u ''JournalView.swift''"
  let ?w = "world_of [(?p, saved_print)]"
  let ?f = "\<lparr>readable = True, writable = True, text_of = Some saved_print\<rparr>"
  let ?w' = "(world_of [(?p, saved_log)])\<lparr>stdout := [Optimized ?p]\<rparr>"
  have h1: "files ?w ?p = Some ?f" by (simp add: world_of_def)
  have h2: "readable ?f" and h3: "writable ?f" and h4: "text_of ?f = Some saved_print" by simp_all
  have h5: "saved_print \<in> set (str_split 10 saved_print)" by (simp add: split_saved)
  have h6: "?w' = ?w\<lparr>files := (files ?w)(?p \<mapsto> ?f\<lparr>text_of := Some (transform_simple saved_print)\<rparr>),
                  stdout := stdout ?w @ [Optimized ?p]\<rparr>"
    by (simp add: world_of_def transform_saved)
  from saved_line_replaced[OF h1 h2 h3 h4 h5 h6, of "[]" 0] h5 show ?thesis by simp
qed

section \<open>C9: errors end the run\<close>

text \<open>
  C9. \<^verbatim>\<open>main\<close> has no handler. In either script, when the files \<open>pre\<close> have been
  processed and \<^verbatim>\<open>optimize_file\<close> raises on the next file, \<^verbatim>\<open>main\<close> ends with that
  error in the world the processed files left: a file that is not in \<open>pre\<close> is as it
  was, so the files after the failing one are untouched (and the failing one too), and
  no summary is printed. In the literal variant each processed file has its text
  replaced by the transformed text. In the regex variant the hypothesis holds only
  with no file processed: its \<^verbatim>\<open>optimize_file\<close> never returns.
\<close>

theorem main_fail_fast:
  "(count_loop optimize_file_simple w pre 0 = (Inr n, w1) \<and> distinct pre \<and>
    fst (optimize_file_simple w1 p) = Inl e \<longrightarrow>
      main_simple w (pre @ p # post) = (Inl e, w1) \<and>
      (\<forall>q. q \<notin> set pre \<longrightarrow> files w1 q = files w q) \<and>
      (\<forall>q \<in> set pre. \<exists>f c. files w q = Some f \<and> text_of f = Some c \<and>
          files w1 q = Some (f\<lparr>text_of := Some (transform_simple c)\<rparr>)))
   \<and>
   (count_loop optimize_file v pre' 0 = (Inr n', v1) \<and> fst (optimize_file v1 p') = Inl e' \<longrightarrow>
      main v (pre' @ p' # post') = (Inl e', v1) \<and> (\<forall>q. files v1 q = files v q))"
proof (intro conjI impI)
  assume a: "count_loop optimize_file_simple w pre 0 = (Inr n, w1) \<and> distinct pre \<and>
    fst (optimize_file_simple w1 p) = Inl e"
  then have loop: "count_loop optimize_file_simple w pre 0 = (Inr n, w1)"
    and d: "distinct pre" and f: "fst (optimize_file_simple w1 p) = Inl e" by simp_all
  obtain w2 where o: "optimize_file_simple w1 p = (Inl e, w2)"
    using f by (cases "optimize_file_simple w1 p") auto
  then have "w2 = w1" by (rule optimize_file_simple_error)
  with o have "count_loop optimize_file_simple w1 (p # post) n = (Inl e, w1)" by simp
  with count_loop_append[OF loop, of "p # post"]
  show "main_simple w (pre @ p # post) = (Inl e, w1)"
    by (simp add: main_simple_def main_with_def)
  show "\<forall>q. q \<notin> set pre \<longrightarrow> files w1 q = files w q"
    using count_loop_simple_frame[OF loop] by blast
  show "\<forall>q \<in> set pre. \<exists>f c. files w q = Some f \<and> text_of f = Some c \<and>
          files w1 q = Some (f\<lparr>text_of := Some (transform_simple c)\<rparr>)"
    using count_loop_simple_files[OF loop d] by blast
next
  assume a: "count_loop optimize_file v pre' 0 = (Inr n', v1) \<and> fst (optimize_file v1 p') = Inl e'"
  then have loop: "count_loop optimize_file v pre' 0 = (Inr n', v1)"
    and f: "fst (optimize_file v1 p') = Inl e'" by simp_all
  from count_loop_regex[OF loop] have e: "pre' = []" "v1 = v" by simp_all
  obtain v2 where o: "optimize_file v1 p' = (Inl e', v2)"
    using f by (cases "optimize_file v1 p'") auto
  then have "v2 = v1" by (rule optimize_file_keeps_world)
  with o have "count_loop optimize_file v1 (p' # post') n' = (Inl e', v1)" by simp
  with count_loop_append[OF loop, of "p' # post'"]
  show "main v (pre' @ p' # post') = (Inl e', v1)"
    by (simp add: main_def main_with_def)
  show "\<forall>q. files v1 q = files v q" using e by simp
qed

theorem main_fail_fast_witness:
  "main_simple (world_of [(u ''A.swift'', saved_print), (u ''C.swift'', u ''let y = 2'')])
     [u ''A.swift'', u ''B.swift'', u ''C.swift'']
   = (Inl OSError, (world_of [(u ''A.swift'', saved_log), (u ''C.swift'', u ''let y = 2'')])
                     \<lparr>stdout := [Optimized (u ''A.swift'')]\<rparr>) \<and>
   main (world_of [(u ''A.swift'', saved_print), (u ''C.swift'', u ''let y = 2'')])
     [u ''A.swift'', u ''C.swift'']
   = (Inl ReError, world_of [(u ''A.swift'', saved_print), (u ''C.swift'', u ''let y = 2'')])"
proof -
  let ?A = "u ''A.swift''" and ?B = "u ''B.swift''" and ?C = "u ''C.swift''"
  let ?w = "world_of [(?A, saved_print), (?C, u ''let y = 2'')]"
  let ?w1 = "(world_of [(?A, saved_log), (?C, u ''let y = 2'')])\<lparr>stdout := [Optimized ?A]\<rparr>"
  have "optimize_file_simple ?w ?A =
     (Inr True, ?w\<lparr>files := (files ?w)(?A \<mapsto>
          \<lparr>readable = True, writable = True, text_of = Some saved_print\<rparr>
            \<lparr>text_of := Some (transform_simple saved_print)\<rparr>),
        stdout := stdout ?w @ [Optimized ?A]\<rparr>)"
    by (rule optimize_file_simple_changed[OF read_world_of])
      (simp_all add: transform_saved saved_differ[symmetric] files_world_of)
  also have "?w\<lparr>files := (files ?w)(?A \<mapsto>
          \<lparr>readable = True, writable = True, text_of = Some saved_print\<rparr>
            \<lparr>text_of := Some (transform_simple saved_print)\<rparr>),
        stdout := stdout ?w @ [Optimized ?A]\<rparr> = ?w1"
    by (simp add: world_of_def transform_saved)
  finally have "count_loop optimize_file_simple ?w [?A] 0 = (Inr 1, ?w1)" by simp
  moreover have "distinct [?A]" by simp
  moreover have "fst (optimize_file_simple ?w1 ?B) = Inl OSError"
    by (simp add: optimize_file_simple_def read_text_def world_of_def u_def)
  moreover have "count_loop optimize_file ?w [] 0 = (Inr 0, ?w)" by simp
  moreover have "fst (optimize_file ?w ?A) = Inl ReError"
    by (simp add: optimize_file_raises read_world_of)
  ultimately show ?thesis
    using main_fail_fast[of ?w "[?A]" 1 ?w1 ?B OSError "[?C]" ?w "[]" 0 ?w ?A ReError "[?C]"]
    by simp
qed

section \<open>C10: a file that only needs the import\<close>

text \<open>
  C10, at a text with an import line and a \<^verbatim>\<open>print\<close> call that no rule matches. The
  literal variant puts the import line in, writes the file and returns \<^verbatim>\<open>True\<close>, the
  \<^verbatim>\<open>print\<close> call staying where it was (\<open>transform_simple_import_only\<close> is the general
  statement). The regex variant puts the import line into the text in memory and then
  raises at its eleventh rule: the file is not written and \<^verbatim>\<open>True\<close> is not returned.
\<close>

theorem import_only_regex_raises:
  \<open>add_import (u ''import UIKit'' @ [10] @ u ''print(1)'' @ [10])
     = u ''import UIKit'' @ [10] @ u ''import PerformanceLogger'' @ [10] @ u ''print(1)'' @ [10] \<and>
   optimize_file (world_of [(u ''A.swift'', u ''import UIKit'' @ [10] @ u ''print(1)'' @ [10])])
       (u ''A.swift'')
     = (Inl ReError, world_of [(u ''A.swift'', u ''import UIKit'' @ [10] @ u ''print(1)'' @ [10])]) \<and>
   optimize_file_simple (world_of [(u ''A.swift'', u ''import UIKit'' @ [10] @ u ''print(1)'' @ [10])])
       (u ''A.swift'')
     = (Inr True,
        (world_of [(u ''A.swift'',
            u ''import UIKit'' @ [10] @ u ''import PerformanceLogger'' @ [10] @ u ''print(1)'' @ [10])])
          \<lparr>stdout := [Optimized (u ''A.swift'')]\<rparr>)\<close>
proof (intro conjI)
  let ?A = "u ''A.swift''"
  let ?c = "u ''import UIKit'' @ [10] @ u ''print(1)'' @ [10]"
  let ?c' = "u ''import UIKit'' @ [10] @ u ''import PerformanceLogger'' @ [10] @ u ''print(1)'' @ [10]"
  let ?w = "world_of [(?A, ?c)]"
  show "add_import ?c = ?c'"
    by (simp add: add_import_def import_PerformanceLogger_def print_marker_def import_pattern_def
        lits_def u_def isspace_def)
  show "optimize_file ?w ?A = (Inl ReError, ?w)"
    by (simp add: optimize_file_raises read_world_of)
  have t: "transform_simple ?c = ?c'"
    by (simp add: transform_simple_def add_import_simple_def import_PerformanceLogger_def
        print_marker_def is_import_line_def str_strip_def startswith_def list_insert_def
        replacements_simple_def u_def isspace_def)
  have ne: "transform_simple ?c \<noteq> ?c" unfolding t by (simp add: u_def)
  have "optimize_file_simple ?w ?A =
     (Inr True, ?w\<lparr>files := (files ?w)(?A \<mapsto>
          \<lparr>readable = True, writable = True, text_of = Some ?c\<rparr>
            \<lparr>text_of := Some (transform_simple ?c)\<rparr>),
        stdout := stdout ?w @ [Optimized ?A]\<rparr>)"
    by (rule optimize_file_simple_changed[OF read_world_of ne]) (simp_all add: files_world_of)
  also have "?w\<lparr>files := (files ?w)(?A \<mapsto>
          \<lparr>readable = True, writable = True, text_of = Some ?c\<rparr>
            \<lparr>text_of := Some (transform_simple ?c)\<rparr>),
        stdout := stdout ?w @ [Optimized ?A]\<rparr> = (world_of [(?A, ?c')])\<lparr>stdout := [Optimized ?A]\<rparr>"
    unfolding t by (simp add: world_of_def)
  finally show "optimize_file_simple ?w ?A = (Inr True, (world_of [(?A, ?c')])\<lparr>stdout := [Optimized ?A]\<rparr>)" .
qed

end
